theory Spec2Isabelle
  imports Complex_Main
begin

section \<open>Python strings\<close>

text \<open>
  A Python \<open>str\<close> is a sequence of Unicode code points; a code point is modelled as a
  natural number and a string as the list of its code points.  The two character classes
  the program relies on are those of \<open>str.isspace\<close> (used by \<open>str.strip()\<close>) and of
  \<open>str.isdigit\<close>; both are given by their ranges of code points (Unicode 14.0).
\<close>

type_synonym pystr = "nat list"

definition lit :: "string \<Rightarrow> pystr" where
  "lit s = map of_char s"

fun in_ranges :: "nat \<Rightarrow> (nat \<times> nat) list \<Rightarrow> bool" where
  "in_ranges c [] = False"
| "in_ranges c ((lo, hi) # rs) = (if lo \<le> c \<and> c \<le> hi then True else in_ranges c rs)"

definition space_ranges :: "(nat \<times> nat) list" where
  "space_ranges =
   [(9, 13), (28, 32), (133, 133), (160, 160), (5760, 5760), (8192, 8202),
    (8232, 8233), (8239, 8239), (8287, 8287), (12288, 12288)]"

definition digit_ranges :: "(nat \<times> nat) list" where
  "digit_ranges =
   [(48, 57), (178, 179), (185, 185), (1632, 1641), (1776, 1785), (1984, 1993),
    (2406, 2415), (2534, 2543), (2662, 2671), (2790, 2799), (2918, 2927), (3046, 3055),
    (3174, 3183), (3302, 3311), (3430, 3439), (3558, 3567), (3664, 3673), (3792, 3801),
    (3872, 3881), (4160, 4169), (4240, 4249), (4969, 4977), (6112, 6121), (6160, 6169),
    (6470, 6479), (6608, 6618), (6784, 6793), (6800, 6809), (6992, 7001), (7088, 7097),
    (7232, 7241), (7248, 7257), (8304, 8304), (8308, 8313), (8320, 8329), (9312, 9320),
    (9332, 9340), (9352, 9360), (9450, 9450), (9461, 9469), (9471, 9471),
    (10102, 10110), (10112, 10120), (10122, 10130), (42528, 42537), (43216, 43225),
    (43264, 43273), (43472, 43481), (43504, 43513), (43600, 43609), (44016, 44025),
    (65296, 65305), (66720, 66729), (68160, 68163), (68912, 68921), (69216, 69224),
    (69714, 69722), (69734, 69743), (69872, 69881), (69942, 69951), (70096, 70105),
    (70384, 70393), (70736, 70745), (70864, 70873), (71248, 71257), (71360, 71369),
    (71472, 71481), (71904, 71913), (72016, 72025), (72784, 72793), (73040, 73049),
    (73120, 73129), (92768, 92777), (92864, 92873), (93008, 93017), (120782, 120831),
    (123200, 123209), (123632, 123641), (125264, 125273), (127232, 127242),
    (130032, 130041)]"

definition isspace_cp :: "nat \<Rightarrow> bool" where
  "isspace_cp c = in_ranges c space_ranges"

definition isdigit_cp :: "nat \<Rightarrow> bool" where
  "isdigit_cp c = in_ranges c digit_ranges"

text \<open>\<open>s.strip()\<close>: leading and trailing whitespace removed.\<close>

definition strip :: "pystr \<Rightarrow> pystr" where
  "strip s = rev (dropWhile isspace_cp (rev (dropWhile isspace_cp s)))"

text \<open>\<open>s.isdigit()\<close>: at least one character, and every character a digit.\<close>

fun all_digits :: "pystr \<Rightarrow> bool" where
  "all_digits [] = True"
| "all_digits (c # cs) = (if isdigit_cp c then all_digits cs else False)"

definition isdigit :: "pystr \<Rightarrow> bool" where
  "isdigit s = (s \<noteq> [] \<and> all_digits s)"

text \<open>\<open>str(n)\<close> for a non-negative integer: its decimal digits.\<close>

fun str_nat :: "nat \<Rightarrow> pystr" where
  "str_nat n = (if n < 10 then [48 + n] else str_nat (n div 10) @ [48 + n mod 10])"

declare str_nat.simps [simp del]

text \<open>\<open>content.split('\n')\<close> and \<open>'\n'.join(lines)\<close>; the line feed is code point 10.\<close>

fun split_lines :: "pystr \<Rightarrow> pystr list" where
  "split_lines [] = [[]]"
| "split_lines (c # cs) =
     (if c = 10 then [] # split_lines cs
      else (case split_lines cs of [] \<Rightarrow> [[c]] | l # ls \<Rightarrow> (c # l) # ls))"

fun join_lines :: "pystr list \<Rightarrow> pystr" where
  "join_lines [] = []"
| "join_lines [l] = l"
| "join_lines (l # ls) = l @ 10 # join_lines ls"

section \<open>Errors\<close>

text \<open>
  Every exception the program can raise is a value: \<open>IndexError\<close> is Python's own, the
  other three are the \<open>Exception\<close> objects the program constructs, told apart by their
  message (\<open>RetryLimit\<close> for the message of \<open>translate_text\<close> after its loop,
  \<open>TranslateFailed e\<close> for its outer handler's wrapping of \<open>e\<close>, \<open>ProxyTestFailed m\<close>
  for \<open>test_proxy\<close>'s wrapping of a failure with message \<open>m\<close>).
\<close>

datatype error = IndexError | RetryLimit | TranslateFailed error | ProxyTestFailed pystr

section \<open>The line walks of the editor\<close>

subsection \<open>\<open>SubtitleEditor.onTranslationFinished\<close>\<close>

text \<open>
  The \<open>while\<close> loop of \<open>onTranslationFinished\<close>, with its three variables \<open>i\<close>,
  \<open>trans_index\<close> and \<open>new_lines\<close>.  The read \<open>lines[i-1]\<close> after \<open>i += 2\<close> is not
  guarded in the source and raises \<open>IndexError\<close> when \<open>i - 1\<close> is past the end.
\<close>

function merge_walk ::
  "pystr list \<Rightarrow> pystr list \<Rightarrow> nat \<Rightarrow> nat \<Rightarrow> pystr list \<Rightarrow> error + pystr list \<times> nat" where
  "merge_walk lines translated_texts i trans_index new_lines =
     (if i < length lines then
        (let line = strip (lines ! i);
             new_lines = new_lines @ [lines ! i]
         in if isdigit line then
              (let i = i + 2 in
               if i - 1 < length lines then
                 (let new_lines = new_lines @ [lines ! (i - 1)] in
                  if i < length lines then
                    (let new_lines = new_lines @ [lines ! i] in
                     if trans_index < length translated_texts then
                       merge_walk lines translated_texts (i + 1) (trans_index + 1)
                         (new_lines @ [translated_texts ! trans_index])
                     else merge_walk lines translated_texts (i + 1) trans_index new_lines)
                  else merge_walk lines translated_texts (i + 1) trans_index new_lines)
               else Inl IndexError)
            else merge_walk lines translated_texts (i + 1) trans_index new_lines)
      else Inr (new_lines, trans_index))"
  by pat_completeness auto
termination
  by (relation "measure (\<lambda>(lines, translated_texts, i, trans_index, new_lines). length lines - i)")
     auto

declare merge_walk.simps [simp del]

text \<open>The new content of the text box: the walk from \<open>i = 0\<close>, joined by line feeds.\<close>

definition merge_lines :: "pystr list \<Rightarrow> pystr list \<Rightarrow> error + pystr list" where
  "merge_lines lines translated_texts =
     (case merge_walk lines translated_texts 0 0 [] of
        Inl e \<Rightarrow> Inl e
      | Inr (new_lines, trans_index) \<Rightarrow> Inr new_lines)"

definition onTranslationFinished :: "pystr \<Rightarrow> pystr list \<Rightarrow> error + pystr" where
  "onTranslationFinished content translated_texts =
     (case merge_lines (split_lines content) translated_texts of
        Inl e \<Rightarrow> Inl e
      | Inr new_lines \<Rightarrow> Inr (join_lines new_lines))"

subsection \<open>\<open>SubtitleEditor.process_subtitle_lines\<close>\<close>

text \<open>
  The \<open>while\<close> loop of \<open>process_subtitle_lines\<close> with its variables \<open>i\<close>,
  \<open>subtitle_count\<close> and \<open>result\<close>.  Every read is guarded by \<open>i < len(lines)\<close>, so
  the walk raises nothing.  Any \<open>process_type\<close> other than \<open>'translate'\<close> takes the
  \<open>chinese_only\<close> branch.
\<close>

function process_walk ::
  "pystr list \<Rightarrow> pystr \<Rightarrow> nat \<Rightarrow> nat \<Rightarrow> pystr list \<Rightarrow> pystr list" where
  "process_walk lines process_type i subtitle_count result =
     (if i < length lines then
        (let line = strip (lines ! i) in
         if isdigit line then
           (if process_type = lit ''translate'' then
              (let i = i + 2 in
               if i < length lines then
                 process_walk lines process_type (i + 1) subtitle_count
                   (result @ [strip (lines ! i)])
               else process_walk lines process_type (i + 1) subtitle_count result)
            else
              (let result = result @ [str_nat subtitle_count];
                   i = i + 1
               in if i < length lines then
                    (let result = result @ [lines ! i];
                         i = i + 2
                     in if i < length lines \<and> \<not> isdigit (strip (lines ! i)) then
                          process_walk lines process_type (i + 1) (subtitle_count + 1)
                            (result @ [lines ! i])
                        else process_walk lines process_type (i + 1) subtitle_count result)
                  else process_walk lines process_type (i + 1) subtitle_count result))
         else process_walk lines process_type (i + 1) subtitle_count result)
      else result)"
  by pat_completeness auto
termination
  by (relation "measure (\<lambda>(lines, process_type, i, subtitle_count, result). length lines - i)")
     auto

declare process_walk.simps [simp del]

definition process_subtitle_lines :: "pystr list \<Rightarrow> pystr \<Rightarrow> pystr list" where
  "process_subtitle_lines lines process_type = process_walk lines process_type 0 1 []"


text \<open>
  \<open>addTranslation\<close> hands the worker \<open>process_subtitle_lines(lines, 'translate')\<close> of
  the text box; \<open>saveChineseOnly\<close> writes the \<open>chinese_only\<close> lines joined by line feeds.
\<close>

definition texts_to_translate :: "pystr \<Rightarrow> pystr list" where
  "texts_to_translate content = process_subtitle_lines (split_lines content) (lit ''translate'')"

definition chinese_lines :: "pystr \<Rightarrow> pystr" where
  "chinese_lines content =
     join_lines (process_subtitle_lines (split_lines content) (lit ''chinese_only''))"

section \<open>The translation worker\<close>

subsection \<open>The world the worker acts on\<close>

text \<open>
  The worker thread changes the process environment, calls the network, sleeps and emits Qt
  signals.  The world records the environment, the number of provider calls made so far and
  the log of every effect in the order it happened.  The network is an oracle: the outcome
  of the reachability request, and for the \<open>n\<close>-th provider call on a text either the
  translated text or \<open>None\<close> when \<open>translator.translate\<close> raises.
\<close>

datatype event =
    SetEnv pystr pystr
  | DelEnv pystr
  | Probe
  | Call pystr
  | Sleep rat
  | SigStarted
  | SigProgress int
  | SigFinished "pystr list"
  | SigError error

record world =
  environ :: "pystr \<rightharpoonup> pystr"
  calls :: nat
  log :: "event list"

datatype probe_outcome = Raises pystr | Status nat

type_synonym provider = "nat \<Rightarrow> pystr \<Rightarrow> pystr option"

definition emit :: "event \<Rightarrow> world \<Rightarrow> world" where
  "emit e w = w\<lparr>log := log w @ [e]\<rparr>"

definition set_env :: "pystr \<Rightarrow> pystr \<Rightarrow> world \<Rightarrow> world" where
  "set_env k v w = w\<lparr>environ := (environ w)(k \<mapsto> v), log := log w @ [SetEnv k v]\<rparr>"

definition del_env :: "pystr \<Rightarrow> world \<Rightarrow> world" where
  "del_env k w = w\<lparr>environ := (environ w)(k := None), log := log w @ [DelEnv k]\<rparr>"

definition sleep :: "rat \<Rightarrow> world \<Rightarrow> world" where
  "sleep seconds w = emit (Sleep seconds) w"

definition translate_call :: "provider \<Rightarrow> pystr \<Rightarrow> world \<Rightarrow> pystr option \<times> world" where
  "translate_call p text w = (p (calls w) text, (emit (Call text) w)\<lparr>calls := calls w + 1\<rparr>)"

subsection \<open>Progress arithmetic\<close>

text \<open>
  \<open>int((i + 1) / total * 100)\<close> is computed in double precision: \<open>/\<close> on two integers
  and \<open>*\<close> each return the double nearest to the exact result (ties to even), and \<open>int\<close>
  truncates.  A positive double is a pair \<open>(m, e)\<close> standing for \<open>m * 2 ^ e\<close>, with a
  mantissa \<open>m\<close> of 53 bits; the exponent range of doubles is not reached by a quotient of
  list positions, and neither are zero or negative values.
\<close>

type_synonym double = "nat \<times> int"

text \<open>\<open>n.bit_length()\<close>: the number of binary digits of \<open>n\<close>.\<close>

fun bit_length :: "nat \<Rightarrow> nat" where
  "bit_length n = (if n = 0 then 0 else Suc (bit_length (n div 2)))"

declare bit_length.simps [simp del]

text \<open>
  The integer \<open>c\<close> with \<open>2 ^ c \<le> p / q < 2 ^ (c + 1)\<close>, for positive \<open>p\<close> and \<open>q\<close>:
  the difference of the bit lengths, or one less.
\<close>

definition log2_adjust :: "nat \<Rightarrow> nat \<Rightarrow> int \<Rightarrow> int" where
  "log2_adjust p q c = (if q * 2 ^ nat c \<le> p * 2 ^ nat (- c) then c else c - 1)"

definition floor_log2 :: "nat \<Rightarrow> nat \<Rightarrow> int" where
  "floor_log2 p q = log2_adjust p q (int (bit_length p) - int (bit_length q))"

text \<open>
  The integer nearest to \<open>a / b\<close>, from the quotient \<open>d\<close> and the remainder \<open>r\<close> of the
  division; a tie goes to the even neighbour.
\<close>

definition round_tie_even :: "nat \<Rightarrow> nat \<Rightarrow> nat \<Rightarrow> nat" where
  "round_tie_even d r b =
     (if 2 * r < b then d else if b < 2 * r then d + 1 else if even d then d else d + 1)"

definition round_half_even :: "nat \<Rightarrow> nat \<Rightarrow> nat" where
  "round_half_even a b = round_tie_even (a div b) (a mod b) b"

text \<open>
  The double nearest to \<open>p / q\<close>: with \<open>e = floor_log2 p q - 52\<close> the quotient
  \<open>p / (q * 2 ^ e)\<close> has 53 bits before the binary point, and is rounded to an integer.
\<close>

definition scaled_round :: "nat \<Rightarrow> nat \<Rightarrow> int \<Rightarrow> double" where
  "scaled_round p q e = (round_half_even (p * 2 ^ nat (- e)) (q * 2 ^ nat e), e)"

definition nearest_double :: "nat \<Rightarrow> nat \<Rightarrow> double" where
  "nearest_double p q = scaled_round p q (floor_log2 p q - 52)"

text \<open>\<open>a / b\<close> on integers, \<open>x * k\<close> on a double and an integer, and \<open>int(x)\<close>.\<close>

definition true_div :: "nat \<Rightarrow> nat \<Rightarrow> double" where
  "true_div a b = nearest_double a b"

definition float_mul :: "double \<Rightarrow> nat \<Rightarrow> double" where
  "float_mul x k = nearest_double (fst x * k * 2 ^ nat (snd x)) (2 ^ nat (- snd x))"

definition float_to_int :: "double \<Rightarrow> int" where
  "float_to_int x = int ((fst x * 2 ^ nat (snd x)) div 2 ^ nat (- snd x))"

definition progress_value :: "nat \<Rightarrow> nat \<Rightarrow> int" where
  "progress_value i ntotal = float_to_int (float_mul (true_div (i + 1) ntotal) 100)"

text \<open>
  The progress value in the words of the specification, \<open>round((i+1)/total*100)\<close>, in exact
  arithmetic; it is compared with \<open>progress_value\<close> below.
\<close>

definition spec_progress :: "nat \<Rightarrow> nat \<Rightarrow> int" where
  "spec_progress i ntotal = round (of_nat (i + 1) / of_nat ntotal * 100 :: rat)"

subsection \<open>\<open>TranslatorThread.test_proxy\<close>\<close>

definition http_proxy :: pystr where
  "http_proxy = lit ''http_proxy''"

definition https_proxy :: pystr where
  "https_proxy = lit ''https_proxy''"

definition proxy_url :: pystr where
  "proxy_url = lit ''http://127.0.0.1:7890''"

definition test_proxy :: "probe_outcome \<Rightarrow> world \<Rightarrow> (error + bool) \<times> world" where
  "test_proxy outcome w =
     (let w = set_env http_proxy proxy_url w;
          w = set_env https_proxy proxy_url w;
          w = emit Probe w
      in case outcome of
           Raises msg \<Rightarrow> (Inl (ProxyTestFailed msg), w)
         | Status status_code \<Rightarrow> if status_code = 200 then (Inr True, w) else (Inr False, w))"

subsection \<open>\<open>TranslatorThread.translate_text\<close>\<close>

text \<open>
  \<open>translate_attempts\<close> is the loop \<open>for _ in range(3)\<close>, by the number of rounds left:
  a call that returns ends the function with the result, a call that raises is followed by
  \<open>time.sleep(1)\<close> and the next round.  After the loop the function raises, and its outer
  handler wraps that exception.
\<close>

fun translate_attempts ::
  "provider \<Rightarrow> pystr \<Rightarrow> nat \<Rightarrow> world \<Rightarrow> (error + pystr) \<times> world" where
  "translate_attempts p text 0 w = (Inl RetryLimit, w)"
| "translate_attempts p text (Suc rounds) w =
     (case translate_call p text w of
        (Some result, w') \<Rightarrow> (Inr result, w')
      | (None, w') \<Rightarrow> translate_attempts p text rounds (sleep 1 w'))"

definition translate_text :: "provider \<Rightarrow> pystr \<Rightarrow> world \<Rightarrow> (error + pystr) \<times> world" where
  "translate_text p text w =
     (case translate_attempts p text 3 w of
        (Inl e, w') \<Rightarrow> (Inl (TranslateFailed e), w')
      | (Inr result, w') \<Rightarrow> (Inr result, w'))"

subsection \<open>\<open>TranslatorThread.run\<close>\<close>

text \<open>The \<open>for i, text in enumerate(self.texts)\<close> loop, by the texts still to do.\<close>

fun run_loop ::
  "provider \<Rightarrow> nat \<Rightarrow> pystr list \<Rightarrow> nat \<Rightarrow> pystr list \<Rightarrow> world
     \<Rightarrow> (error + pystr list) \<times> world" where
  "run_loop p ntotal [] i translated_texts w = (Inr translated_texts, w)"
| "run_loop p ntotal (text # rest) i translated_texts w =
     (if strip text \<noteq> [] then
        (case translate_text p text w of
           (Inl e, w') \<Rightarrow> (Inl e, w')
         | (Inr translated, w') \<Rightarrow>
             run_loop p ntotal rest (i + 1) (translated_texts @ [translated])
               (sleep (1 / 2) (emit (SigProgress (progress_value i ntotal)) w')))
      else
        run_loop p ntotal rest (i + 1) (translated_texts @ [[]])
          (sleep (1 / 2) (emit (SigProgress (progress_value i ntotal)) w)))"

text \<open>
  The body of the \<open>try\<close>: \<open>Inl e\<close> is an exception on its way to the handler,
  \<open>Inr ()\<close> is the end of the body, reached by the \<open>return\<close> or after \<open>finished.emit\<close>.
\<close>

definition run_try :: "probe_outcome \<Rightarrow> provider \<Rightarrow> pystr list \<Rightarrow> world \<Rightarrow> (error + unit) \<times> world" where
  "run_try outcome p texts w =
     (case test_proxy outcome w of
        (Inl e, w') \<Rightarrow> (Inl e, w')
      | (Inr ok, w') \<Rightarrow>
          if \<not> ok then (Inr (), w')
          else (case run_loop p (length texts) texts 0 [] (emit SigStarted w') of
                  (Inl e, w'') \<Rightarrow> (Inl e, w'')
                | (Inr translated_texts, w'') \<Rightarrow> (Inr (), emit (SigFinished translated_texts) w'')))"

text \<open>The \<open>finally\<close> clause: each proxy variable is deleted if it is set.\<close>

definition clear_proxy :: "world \<Rightarrow> world" where
  "clear_proxy w =
     (let w = (if http_proxy \<in> dom (environ w) then del_env http_proxy w else w)
      in if https_proxy \<in> dom (environ w) then del_env https_proxy w else w)"

definition run :: "probe_outcome \<Rightarrow> provider \<Rightarrow> pystr list \<Rightarrow> world \<Rightarrow> world" where
  "run outcome p texts w =
     (case run_try outcome p texts w of
        (Inl e, w') \<Rightarrow> clear_proxy (emit (SigError e) w')
      | (Inr u, w') \<Rightarrow> clear_proxy w')"

subsection \<open>\<open>SubtitleEditor.cancelTranslation\<close>\<close>

text \<open>
  \<open>cancelTranslation\<close> calls \<open>QThread.terminate()\<close>: the worker stops where it is and
  executes nothing further, its \<open>finally\<close> clause included.  A worker terminated after its
  first \<open>k\<close> effects leaves the environment that those \<open>k\<close> effects produce;
  \<open>cancelTranslation\<close> itself only resets flags and buttons.
\<close>

fun apply_event :: "event \<Rightarrow> (pystr \<rightharpoonup> pystr) \<Rightarrow> (pystr \<rightharpoonup> pystr)" where
  "apply_event (SetEnv k v) env = env(k \<mapsto> v)"
| "apply_event (DelEnv k) env = env(k := None)"
| "apply_event e env = env"

fun replay :: "event list \<Rightarrow> (pystr \<rightharpoonup> pystr) \<Rightarrow> (pystr \<rightharpoonup> pystr)" where
  "replay [] env = env"
| "replay (e # es) env = replay es (apply_event e env)"

definition start :: "(pystr \<rightharpoonup> pystr) \<Rightarrow> world" where
  "start env = \<lparr>environ = env, calls = 0, log = []\<rparr>"

definition cancelled_environ ::
  "nat \<Rightarrow> probe_outcome \<Rightarrow> provider \<Rightarrow> pystr list \<Rightarrow> (pystr \<rightharpoonup> pystr) \<Rightarrow> (pystr \<rightharpoonup> pystr)" where
  "cancelled_environ k outcome p texts env =
     replay (take k (log (run outcome p texts (start env)))) env"

subsection \<open>Reading the log\<close>

text \<open>
  The progress values emitted, the number of provider calls, and the world after a list of
  further effects (none of which touches the environment).
\<close>

fun progress_of :: "event list \<Rightarrow> int list" where
  "progress_of [] = []"
| "progress_of (SigProgress v # es) = v # progress_of es"
| "progress_of (e # es) = progress_of es"

fun is_call :: "event \<Rightarrow> bool" where
  "is_call (Call t) = True"
| "is_call e = False"

definition call_count :: "event list \<Rightarrow> nat" where
  "call_count es = length (filter is_call es)"

definition advance :: "world \<Rightarrow> event list \<Rightarrow> world" where
  "advance w es = w\<lparr>calls := calls w + call_count es, log := log w @ es\<rparr>"

section \<open>Subtitle documents\<close>

text \<open>
  The data model of the class \<open>SrtFile\<close> (an entry has an index, a time line and text):
  a caption block, and a document as the list of its blocks in file order.
\<close>

record CaptionBlock =
  index :: nat
  timeRange :: pystr
  text_lines :: "pystr list"

type_synonym SubtitleDocument = "CaptionBlock list"

text \<open>The lines of a block in SRT layout: index, time range, text lines, blank separator.\<close>

definition block_lines :: "CaptionBlock \<Rightarrow> pystr list" where
  "block_lines b = [str_nat (index b), timeRange b] @ text_lines b @ [[]]"

definition document_lines :: "SubtitleDocument \<Rightarrow> pystr list" where
  "document_lines doc = concat (map block_lines doc)"

text \<open>
  A block the line walks read as one caption: it has a text line, and no text line after
  the first is digit-only once stripped (such a line would be taken for the next index).
\<close>

definition wf_block :: "CaptionBlock \<Rightarrow> bool" where
  "wf_block b = (text_lines b \<noteq> [] \<and> list_all (\<lambda>l. \<not> isdigit (strip l)) (tl (text_lines b)))"

definition wf_document :: "SubtitleDocument \<Rightarrow> bool" where
  "wf_document doc = list_all wf_block doc"


text \<open>
  What the editor makes of a document and its translations.  \<open>bilingual\<close> is the
  document in which the translation of a block stands directly after the block's first
  text line, for as many blocks as there are translations; \<open>renumbered_lines\<close> is the
  translated-only output: per block the running number, the time range and the translation.
\<close>

definition insert_translation :: "CaptionBlock \<Rightarrow> pystr \<Rightarrow> CaptionBlock" where
  "insert_translation b t = b\<lparr>text_lines := hd (text_lines b) # t # tl (text_lines b)\<rparr>"

fun bilingual :: "SubtitleDocument \<Rightarrow> pystr list \<Rightarrow> SubtitleDocument" where
  "bilingual [] ts = []"
| "bilingual (b # bs) [] = b # bs"
| "bilingual (b # bs) (t # ts) = insert_translation b t # bilingual bs ts"

fun renumbered_lines :: "nat \<Rightarrow> SubtitleDocument \<Rightarrow> pystr list \<Rightarrow> pystr list" where
  "renumbered_lines k (b # bs) (t # ts) = [str_nat k, timeRange b, t] @ renumbered_lines (k + 1) bs ts"
| "renumbered_lines k bs ts = []"

subsection \<open>The operations in the words of the specification\<close>

text \<open>
  \<open>merge\<close>: for each block at position \<open>i\<close>, if \<open>translations[i]\<close> is non-empty, append it
  as an additional text line after the block's existing text lines; otherwise leave the
  block unchanged.
\<close>

definition spec_merge_block :: "CaptionBlock \<Rightarrow> pystr \<Rightarrow> CaptionBlock" where
  "spec_merge_block b t = (if t \<noteq> [] then b\<lparr>text_lines := text_lines b @ [t]\<rparr> else b)"

definition spec_merge :: "SubtitleDocument \<Rightarrow> pystr list \<Rightarrow> SubtitleDocument" where
  "spec_merge doc translated_texts =
     map (\<lambda>(b, t). spec_merge_block b t) (zip doc translated_texts)"

text \<open>\<open>extractSourceTexts\<close>: one entry per block, equal to the block's first text line.\<close>

definition spec_extract :: "SubtitleDocument \<Rightarrow> pystr list" where
  "spec_extract doc = map (\<lambda>b. hd (text_lines b)) doc"

text \<open>
  \<open>filterTranslatedOnly\<close>: for each block that has a non-empty translation, a block with
  the next number (from 1), the original time range and the translated text only; blocks
  whose translation is empty are dropped.
\<close>

fun spec_filter_lines :: "nat \<Rightarrow> SubtitleDocument \<Rightarrow> pystr list \<Rightarrow> pystr list" where
  "spec_filter_lines k (b # bs) (t # ts) =
     (if t \<noteq> [] then [str_nat k, timeRange b, t] @ spec_filter_lines (k + 1) bs ts
      else spec_filter_lines k bs ts)"
| "spec_filter_lines k bs ts = []"

subsection \<open>\<open>SrtFile.parse\<close> and \<open>SrtFile.save\<close>\<close>

text \<open>
  Modelled from the spec: the class \<open>SrtFile\<close> of the source consists of its docstring;
  the bodies of \<open>parse\<close> and \<open>save\<close> are missing.  The specification gives them as follows.
  \<open>parse\<close> splits the input on line breaks and walks the lines looking for a line that is
  purely digits (a caption index); on finding one it takes the next line as the time range
  and the following lines up to the next blank line or the next digit-only line as the
  caption text, and produces one block per such group; lines outside any group are dropped.
  A group without a text line is no caption block and is skipped like them.
  \<open>serialize\<close> writes, per block, the index line, the time-range line, each text line and a
  blank separator, every line ended by a line feed.
\<close>

definition index_line :: "pystr \<Rightarrow> bool" where
  "index_line l = (l \<noteq> [] \<and> list_all (\<lambda>c. 48 \<le> c \<and> c \<le> 57) l)"

definition blank_line :: "pystr \<Rightarrow> bool" where
  "blank_line l = (strip l = [])"

definition nat_of_digits :: "pystr \<Rightarrow> nat" where
  "nat_of_digits l = foldl (\<lambda>a c. 10 * a + (c - 48)) 0 l"

definition text_line :: "pystr \<Rightarrow> bool" where
  "text_line l = (\<not> blank_line l \<and> \<not> index_line l)"

function parse_lines :: "pystr list \<Rightarrow> SubtitleDocument" where
  "parse_lines [] = []"
| "parse_lines [l] = []"
| "parse_lines (l # t # rest) =
     (if index_line l then
        (if takeWhile text_line rest = [] then parse_lines (dropWhile text_line rest)
         else \<lparr>index = nat_of_digits l, timeRange = t, text_lines = takeWhile text_line rest\<rparr>
              # parse_lines (dropWhile text_line rest))
      else parse_lines (t # rest))"
  by pat_completeness auto
termination
  by (relation "measure length") (auto simp: less_Suc_eq_le intro: le_trans [OF length_dropWhile_le])

definition parse :: "pystr \<Rightarrow> SubtitleDocument" where
  "parse raw = parse_lines (split_lines raw)"

definition serialize :: "SubtitleDocument \<Rightarrow> pystr" where
  "serialize doc = concat (map (\<lambda>l. l @ [10]) (document_lines doc))"

text \<open>
  Well-formed SRT input is the serialization of a document whose blocks have at least one
  text line, whose text lines are neither blank nor purely digits, and whose lines contain
  no line feed.
\<close>

definition srt_block :: "CaptionBlock \<Rightarrow> bool" where
  "srt_block b =
     (text_lines b \<noteq> [] \<and> list_all (\<lambda>l. text_line l \<and> 10 \<notin> set l) (text_lines b)
      \<and> 10 \<notin> set (timeRange b))"

definition srt_document :: "SubtitleDocument \<Rightarrow> bool" where
  "srt_document doc = list_all srt_block doc"

section \<open>Evaluation and unfolding\<close>

lemmas py_eval = lit_def strip_def isdigit_def isspace_cp_def isdigit_cp_def
  space_ranges_def digit_ranges_def

lemma merge_walk_past: "length ls \<le> i \<Longrightarrow> merge_walk ls ts i ti acc = Inr (acc, ti)"
  by (subst merge_walk.simps) simp

lemma merge_walk_unfold:
  "merge_walk ls ts i ti acc =
     (if i < length ls then
        (if isdigit (strip (ls ! i)) then
           (if i + 1 < length ls then
              (if i + 2 < length ls then
                 (if ti < length ts then
                    merge_walk ls ts (i + 3) (ti + 1)
                      (acc @ [ls ! i, ls ! (i + 1), ls ! (i + 2), ts ! ti])
                  else merge_walk ls ts (i + 3) ti (acc @ [ls ! i, ls ! (i + 1), ls ! (i + 2)]))
               else merge_walk ls ts (i + 3) ti (acc @ [ls ! i, ls ! (i + 1)]))
            else Inl IndexError)
         else merge_walk ls ts (i + 1) ti (acc @ [ls ! i]))
      else Inr (acc, ti))"
  by (subst merge_walk.simps) (simp add: Let_def eval_nat_numeral)

lemma process_walk_past: "length ls \<le> i \<Longrightarrow> process_walk ls pt i c r = r"
  by (subst process_walk.simps) simp

lemma process_walk_unfold:
  "process_walk ls pt i c r =
     (if i < length ls then
        (if isdigit (strip (ls ! i)) then
           (if pt = lit ''translate'' then
              (if i + 2 < length ls then
                 process_walk ls pt (i + 3) c (r @ [strip (ls ! (i + 2))])
               else process_walk ls pt (i + 3) c r)
            else
              (if i + 1 < length ls then
                 (if i + 3 < length ls \<and> \<not> isdigit (strip (ls ! (i + 3))) then
                    process_walk ls pt (i + 4) (c + 1)
                      (r @ [str_nat c, ls ! (i + 1), ls ! (i + 3)])
                  else process_walk ls pt (i + 4) c (r @ [str_nat c, ls ! (i + 1)]))
               else process_walk ls pt (i + 2) c (r @ [str_nat c])))
         else process_walk ls pt (i + 1) c r)
      else r)"
  by (subst process_walk.simps) (simp add: Let_def eval_nat_numeral)

lemma bit_length_0: "bit_length 0 = 0"
  by (subst bit_length.simps) simp

lemma bit_length_1: "bit_length (Suc 0) = Suc 0"
  by (subst bit_length.simps) (simp add: bit_length_0)

lemma bit_length_Bit0: "bit_length (numeral (Num.Bit0 k)) = Suc (bit_length (numeral k))"
  by (subst bit_length.simps) simp

lemma bit_length_Bit1: "bit_length (numeral (Num.Bit1 k)) = Suc (bit_length (numeral k))"
  by (subst bit_length.simps) simp

lemma progress_value_0: "progress_value 0 n = float_to_int (float_mul (true_div 1 n) 100)"
  by (simp add: progress_value_def)

lemma progress_value_1: "progress_value (Suc 0) n = float_to_int (float_mul (true_div 2 n) 100)"
  by (simp add: progress_value_def numeral_2_eq_2)

lemma progress_value_2:
  "progress_value (Suc (Suc 0)) n = float_to_int (float_mul (true_div 3 n) 100)"
  by (simp add: progress_value_def numeral_3_eq_3)

lemma progress_value_numeral:
  "progress_value (numeral k) n =
     float_to_int (float_mul (true_div (numeral (k + Num.One)) n) 100)"
  by (simp add: progress_value_def)

lemmas float_eval = progress_value_0 progress_value_1 progress_value_2 progress_value_numeral
  float_to_int_def float_mul_def true_div_def
  nearest_double_def scaled_round_def round_half_even_def round_tie_even_def
  floor_log2_def log2_adjust_def
  bit_length_0 bit_length_1 bit_length_Bit0 bit_length_Bit1

lemmas world_ops = emit_def sleep_def translate_call_def set_env_def del_env_def

section \<open>Bounds of the merge walk\<close>

lemma merge_walk_total:
  assumes "\<forall>k<length ls. isdigit (strip (ls ! k)) \<longrightarrow> Suc k < length ls"
  shows "\<exists>r. merge_walk ls ts i ti acc = Inr r"
  using assms
proof (induction "length ls - i" arbitrary: i ti acc rule: less_induct)
  case less
  show ?case
  proof (cases "i < length ls")
    case False
    then show ?thesis by (simp add: merge_walk_past)
  next
    case True
    note IH = less.hyps [OF _ less.prems]
    show ?thesis
    proof (cases "isdigit (strip (ls ! i))")
      case False
      have "length ls - (i + 1) < length ls - i" using True by arith
      from IH [OF this] show ?thesis
        using True False by (subst merge_walk_unfold) simp
    next
      case d: True
      then have s: "i + 1 < length ls" using less.prems True by auto
      have "length ls - (i + 3) < length ls - i" using True by arith
      from IH [OF this] show ?thesis
        using True d s by (subst merge_walk_unfold) simp
    qed
  qed
qed

lemma merge_walk_last_digit:
  assumes "\<forall>l\<in>set pre. \<not> isdigit (strip l)" and "isdigit (strip l)" and "i \<le> length pre"
  shows "merge_walk (pre @ [l]) ts i ti acc = Inl IndexError"
  using assms(3)
proof (induction "length pre - i" arbitrary: i acc rule: less_induct)
  case less
  show ?case
  proof (cases "i = length pre")
    case True
    then show ?thesis using assms(2) by (subst merge_walk_unfold) simp
  next
    case False
    then have lt: "i < length pre" using less.prems by simp
    then have nd: "\<not> isdigit (strip ((pre @ [l]) ! i))"
      using assms(1) by (simp add: nth_append)
    have "length pre - (i + 1) < length pre - i" using lt by arith
    from less.hyps [OF this] lt
    have "merge_walk (pre @ [l]) ts (i + 1) ti (acc @ [(pre @ [l]) ! i]) = Inl IndexError"
      by simp
    then show ?thesis using lt nd by (subst merge_walk_unfold) simp
  qed
qed

text \<open>
  C10 (as stated): any content whose final line is digit-only after stripping makes the
  read \<open>lines[i-1]\<close> fail.  The two lines \<open>1\<close>, \<open>2\<close> end in a digit-only line, and the
  walk returns: the first line is an index line, the second is consumed as its time line and
  is never examined.
\<close>

theorem merge_final_digit_line_counterexample:
  "isdigit (strip (last [lit ''1'', lit ''2'']))
   \<and> merge_lines [lit ''1'', lit ''2''] [] = Inr [lit ''1'', lit ''2'']"
  by (simp add: merge_lines_def merge_walk_unfold py_eval)

text \<open>
  C10 (amended): when every line that is digit-only after stripping is followed by at least
  one further line, every read of the merge walk is in bounds and the merge returns its
  lines; when the final line is digit-only after stripping and no earlier line is, the read
  \<open>lines[i-1]\<close> is out of range and the merge raises \<open>IndexError\<close>.  The merge is
  therefore not total over all line lists.
\<close>

theorem merge_walk_bounds:
  "((\<forall>k<length ls. isdigit (strip (ls ! k)) \<longrightarrow> Suc k < length ls)
      \<longrightarrow> (\<exists>new_lines. merge_lines ls ts = Inr new_lines))
   \<and> ((\<forall>x\<in>set pre. \<not> isdigit (strip x)) \<and> isdigit (strip l)
      \<longrightarrow> merge_lines (pre @ [l]) ts = Inl IndexError)"
proof (intro conjI impI)
  assume "\<forall>k<length ls. isdigit (strip (ls ! k)) \<longrightarrow> Suc k < length ls"
  from merge_walk_total [OF this, of ts 0 0 "[]"]
  show "\<exists>new_lines. merge_lines ls ts = Inr new_lines"
    by (auto simp: merge_lines_def)
next
  assume "(\<forall>x\<in>set pre. \<not> isdigit (strip x)) \<and> isdigit (strip l)"
  then show "merge_lines (pre @ [l]) ts = Inl IndexError"
    by (simp add: merge_lines_def merge_walk_last_digit)
qed

theorem merge_walk_bounds_witness:
  "(\<exists>new_lines. merge_lines [lit ''1'', lit ''t''] [] = Inr new_lines)
   \<and> merge_lines ([lit ''a''] @ [lit ''7'']) [] = Inl IndexError"
proof -
  have h1: "\<forall>k<length [lit ''1'', lit ''t''].
       isdigit (strip ([lit ''1'', lit ''t''] ! k)) \<longrightarrow> Suc k < length [lit ''1'', lit ''t'']"
    by (simp add: py_eval less_Suc_eq)
  have h2: "(\<forall>x\<in>set [lit ''a'']. \<not> isdigit (strip x)) \<and> isdigit (strip (lit ''7''))"
    by (simp add: py_eval)
  from merge_walk_bounds [of "[lit ''1'', lit ''t'']" "[]" "[lit ''a'']" "lit ''7''"] h1 h2
  show ?thesis by blast
qed

section \<open>Properties of the translation worker\<close>

subsection \<open>Effects as extensions of the log\<close>

lemma call_count_simps [simp]:
  "call_count [] = 0"
  "call_count (Call t # es) = Suc (call_count es)"
  "call_count (Sleep d # es) = call_count es"
  "call_count (SigProgress v # es) = call_count es"
  "call_count (xs @ ys) = call_count xs + call_count ys"
  by (simp_all add: call_count_def)

lemma progress_of_append [simp]: "progress_of (xs @ ys) = progress_of xs @ progress_of ys"
  by (induction xs rule: progress_of.induct) simp_all

lemma replay_append [simp]: "replay (xs @ ys) env = replay ys (replay xs env)"
  by (induction xs arbitrary: env) simp_all

lemma advance_Nil [simp]: "advance w [] = w"
  by (simp add: advance_def)

lemma advance_advance [simp]: "advance (advance w xs) ys = advance w (xs @ ys)"
  by (simp add: advance_def)

lemma advance_sel [simp]:
  "log (advance w es) = log w @ es"
  "calls (advance w es) = calls w + call_count es"
  "environ (advance w es) = environ w"
  by (simp_all add: advance_def)

lemma translate_attempts_advance:
  "translate_attempts p text rounds w = (r, w') \<Longrightarrow>
     \<exists>evs. w' = advance w evs \<and> progress_of evs = [] \<and> call_count evs \<le> rounds
        \<and> (\<forall>env. replay evs env = env)"
proof (induction rounds arbitrary: w)
  case 0
  then have "w' = advance w []" by simp
  then show ?case
    by (intro exI [of _ "[]"]) simp
next
  case (Suc rounds)
  show ?case
  proof (cases "p (calls w) text")
    case (Some res)
    with Suc.prems have "w' = advance w [Call text]"
      by (auto simp: world_ops advance_def)
    then show ?thesis
      by (intro exI [of _ "[Call text]"]) simp
  next
    case None
    let ?w1 = "advance w [Call text, Sleep 1]"
    from None Suc.prems have "translate_attempts p text rounds ?w1 = (r, w')"
      by (simp add: world_ops advance_def)
    from Suc.IH [OF this] obtain evs where
      "w' = advance ?w1 evs" "progress_of evs = []" "call_count evs \<le> rounds"
      "\<forall>env. replay evs env = env" by blast
    then show ?thesis
      by (intro exI [of _ "[Call text, Sleep 1] @ evs"]) simp
  qed
qed

lemma translate_text_advance:
  assumes "translate_text p text w = (r, w')"
  shows "\<exists>evs. w' = advance w evs \<and> progress_of evs = [] \<and> call_count evs \<le> 3
     \<and> (\<forall>env. replay evs env = env)"
proof -
  obtain r0 where "translate_attempts p text 3 w = (r0, w')"
    using assms by (auto simp: translate_text_def split: prod.splits sum.splits)
  from translate_attempts_advance [OF this] show ?thesis .
qed

lemma tail_advance:
  "sleep (1 / 2) (emit (SigProgress v) w) = advance w [SigProgress v, Sleep (1 / 2)]"
  by (simp add: world_ops advance_def)

lemma translate_text_cases:
  "translate_text p tx w =
     (case p (calls w) tx of
        Some r \<Rightarrow> (Inr r, advance w [Call tx])
      | None \<Rightarrow>
         (case p (calls w + 1) tx of
            Some r \<Rightarrow> (Inr r, advance w [Call tx, Sleep 1, Call tx])
          | None \<Rightarrow>
             (case p (calls w + 2) tx of
                Some r \<Rightarrow> (Inr r, advance w [Call tx, Sleep 1, Call tx, Sleep 1, Call tx])
              | None \<Rightarrow>
                 (Inl (TranslateFailed RetryLimit),
                  advance w [Call tx, Sleep 1, Call tx, Sleep 1, Call tx, Sleep 1]))))"
  by (cases "p (calls w) tx"; cases "p (calls w + 1) tx"; cases "p (calls w + 2) tx")
     (simp_all add: translate_text_def eval_nat_numeral world_ops advance_def)

subsection \<open>Retries of \<open>translate_text\<close>\<close>

text \<open>
  C2: for every text and every provider, \<open>translate_text\<close> makes at most 3 provider calls;
  it returns the provider's result at the first call that succeeds (one call, or two or three
  calls with a wait of 1 after each failed one), and after three failed calls it fails with the
  error that wraps the retry-limit exception.  The log shows that the code also waits 1 after
  the third failed call, before it raises.
\<close>

theorem translate_text_retry:
  "(p (calls w) tx = Some r \<longrightarrow>
      translate_text p tx w = (Inr r, advance w [Call tx]))
   \<and> (p (calls w) tx = None \<and> p (calls w + 1) tx = Some r \<longrightarrow>
      translate_text p tx w = (Inr r, advance w [Call tx, Sleep 1, Call tx]))
   \<and> (p (calls w) tx = None \<and> p (calls w + 1) tx = None \<and> p (calls w + 2) tx = Some r \<longrightarrow>
      translate_text p tx w =
        (Inr r, advance w [Call tx, Sleep 1, Call tx, Sleep 1, Call tx]))
   \<and> (p (calls w) tx = None \<and> p (calls w + 1) tx = None \<and> p (calls w + 2) tx = None \<longrightarrow>
      translate_text p tx w =
        (Inl (TranslateFailed RetryLimit),
         advance w [Call tx, Sleep 1, Call tx, Sleep 1, Call tx, Sleep 1]))
   \<and> calls (snd (translate_text p tx w)) \<le> calls w + 3"
  by (simp add: translate_text_cases split: option.splits)

theorem translate_text_retry_witness:
  "translate_text (\<lambda>n t. if n < 2 then None else Some (t @ t)) (lit ''Hi'') (start Map.empty) =
     (Inr (lit ''HiHi''),
      \<lparr>environ = Map.empty, calls = 3,
       log = [Call (lit ''Hi''), Sleep 1, Call (lit ''Hi''), Sleep 1, Call (lit ''Hi'')]\<rparr>)
   \<and> translate_text (\<lambda>n t. None) (lit ''Hi'') (start Map.empty) =
     (Inl (TranslateFailed RetryLimit),
      \<lparr>environ = Map.empty, calls = 3,
       log = [Call (lit ''Hi''), Sleep 1, Call (lit ''Hi''), Sleep 1, Call (lit ''Hi''), Sleep 1]\<rparr>)
   \<and> translate_text (\<lambda>n t. if n < 1 then None else Some (t @ t)) (lit ''Hi'') (start Map.empty) =
     (Inr (lit ''HiHi''),
      \<lparr>environ = Map.empty, calls = 2, log = [Call (lit ''Hi''), Sleep 1, Call (lit ''Hi'')]\<rparr>)
   \<and> translate_text (\<lambda>n t. Some (t @ t)) (lit ''Hi'') (start Map.empty) =
     (Inr (lit ''HiHi''), \<lparr>environ = Map.empty, calls = 1, log = [Call (lit ''Hi'')]\<rparr>)"
  using
    translate_text_retry [of "\<lambda>n t. if n < 2 then None else Some (t @ t)" "start Map.empty"
      "lit ''Hi''" "lit ''HiHi''"]
    translate_text_retry [of "\<lambda>n t. None" "start Map.empty" "lit ''Hi''"]
    translate_text_retry [of "\<lambda>n t. if n < 1 then None else Some (t @ t)" "start Map.empty"
      "lit ''Hi''" "lit ''HiHi''"]
    translate_text_retry [of "\<lambda>n t. Some (t @ t)" "start Map.empty" "lit ''Hi''" "lit ''HiHi''"]
  by (simp add: start_def lit_def advance_def)

subsection \<open>The items of a batch\<close>

lemma run_loop_items_aux:
  assumes "run_loop p n texts i acc w = (r, w')"
  shows "\<exists>segs outs. length segs = length outs \<and> length outs \<le> length texts
     \<and> (\<forall>k<length outs.
           if strip (texts ! k) = [] then
             outs ! k = [] \<and> segs ! k = [SigProgress (progress_value (i + k) n), Sleep (1 / 2)]
           else
             (\<exists>evs. translate_text p (texts ! k) (advance w (concat (take k segs)))
                      = (Inr (outs ! k), advance (advance w (concat (take k segs))) evs)
                  \<and> segs ! k = evs @ [SigProgress (progress_value (i + k) n), Sleep (1 / 2)]))
     \<and> (case r of
           Inr res \<Rightarrow> res = acc @ outs \<and> length outs = length texts \<and> w' = advance w (concat segs)
         | Inl e \<Rightarrow> length outs < length texts \<and> strip (texts ! length outs) \<noteq> []
             \<and> translate_text p (texts ! length outs) (advance w (concat segs)) = (Inl e, w'))"
  using assms
proof (induction "texts" arbitrary: i acc w)
  case Nil
  then show ?case by auto
next
  case (Cons tx rest)
  let ?tail = "[SigProgress (progress_value i n), Sleep (1 / 2)]"
  let ?item = "\<lambda>txs j w0 segs outs k.
           if strip (txs ! k) = [] then
             outs ! k = [] \<and> segs ! k = [SigProgress (progress_value (j + k) n), Sleep (1 / 2)]
           else
             (\<exists>evs. translate_text p (txs ! k) (advance w0 (concat (take k segs)))
                      = (Inr (outs ! k), advance (advance w0 (concat (take k segs))) evs)
                  \<and> segs ! k = evs @ [SigProgress (progress_value (j + k) n), Sleep (1 / 2)])"
  let ?final = "\<lambda>txs acc0 w0 segs outs.
         (case r of
           Inr res \<Rightarrow> res = acc0 @ outs \<and> length outs = length txs \<and> w' = advance w0 (concat segs)
         | Inl e \<Rightarrow> length outs < length txs \<and> strip (txs ! length outs) \<noteq> []
             \<and> translate_text p (txs ! length outs) (advance w0 (concat segs)) = (Inl e, w'))"
  have step: "\<exists>segs outs. length segs = length outs \<and> length outs \<le> length (tx # rest)
       \<and> (\<forall>k<length outs. ?item (tx # rest) i w segs outs k) \<and> ?final (tx # rest) acc w segs outs"
    if run: "run_loop p n rest (i + 1) (acc @ [out]) (advance w seg) = (r, w')"
      and first: "?item (tx # rest) i w [seg] [out] 0"
    for seg out
  proof -
    from Cons.IH [OF run] obtain segs outs where
      len: "length segs = length outs" "length outs \<le> length rest"
      and items: "\<forall>k<length outs. ?item rest (i + 1) (advance w seg) segs outs k"
      and fin: "?final rest (acc @ [out]) (advance w seg) segs outs"
      by blast
    have item: "?item (tx # rest) i w (seg # segs) (out # outs) k" if k: "k < length (out # outs)" for k
    proof (cases k)
      case 0
      with first show ?thesis by (cases "strip tx = []") auto
    next
      case (Suc j)
      with k have "j < length outs" by simp
      with items have "?item rest (i + 1) (advance w seg) segs outs j" by blast
      then show ?thesis using Suc by (cases "strip (rest ! j) = []") auto
    qed
    have items': "\<forall>k<length (out # outs). ?item (tx # rest) i w (seg # segs) (out # outs) k"
      using item by blast
    have fin': "?final (tx # rest) acc w (seg # segs) (out # outs)"
      using fin by (cases r) auto
    have l1: "length (seg # segs) = length (out # outs)" using len by simp
    have l2: "length (out # outs) \<le> length (tx # rest)" using len by simp
    show ?thesis
      by (rule exI [of _ "seg # segs"], rule exI [of _ "out # outs"], intro conjI)
         (rule l1 l2 items' fin')+
  qed
  show ?case
  proof (cases "strip tx = []")
    case True
    with Cons.prems have "run_loop p n rest (i + 1) (acc @ [[]]) (advance w ?tail) = (r, w')"
      by (simp add: tail_advance)
    moreover have "?item (tx # rest) i w [?tail] [[]] 0" using True by simp
    ultimately show ?thesis by (rule step)
  next
    case False
    obtain r0 wt where tt: "translate_text p tx w = (r0, wt)" by (cases "translate_text p tx w")
    from translate_text_advance [OF tt] obtain evs0 where wt: "wt = advance w evs0" by blast
    show ?thesis
    proof (cases r0)
      case (Inl e)
      with False Cons.prems tt have "r = Inl e" "w' = wt" by simp_all
      with False tt Inl have fin0: "?final (tx # rest) acc w [] []" by simp
      have items0: "\<forall>k<length ([]::pystr list). ?item (tx # rest) i w [] [] k" by simp
      show ?thesis
        by (rule exI [of _ "[]"], rule exI [of _ "[]"], intro conjI)
           (simp, simp, rule items0, rule fin0)
    next
      case (Inr tr)
      with False Cons.prems tt wt
      have "run_loop p n rest (i + 1) (acc @ [tr]) (advance w (evs0 @ ?tail)) = (r, w')"
        by (simp add: tail_advance)
      moreover have "?item (tx # rest) i w [evs0 @ ?tail] [tr] 0"
        using False tt Inr wt by simp
      ultimately show ?thesis by (rule step)
    qed
  qed
qed

lemma run_loop_advance:
  "run_loop p n texts i acc w = (r, w') \<Longrightarrow>
     \<exists>evs m. w' = advance w evs \<and> m \<le> length texts
        \<and> progress_of evs = map (\<lambda>k. progress_value (i + k) n) [0..<m]
        \<and> (\<forall>res. r = Inr res \<longrightarrow> m = length texts)
        \<and> (\<forall>env. replay evs env = env)"
proof (induction "texts" arbitrary: i acc w)
  case Nil
  then have "w' = advance w []" by simp
  then show ?case
    by (intro exI [of _ "[]"] exI [of _ 0]) simp
next
  case (Cons tx rest)
  let ?tail = "[SigProgress (progress_value i n), Sleep (1 / 2)]"
  show ?case
  proof (cases "strip tx = []")
    case True
    with Cons.prems have "run_loop p n rest (i + 1) (acc @ [[]]) (advance w ?tail) = (r, w')"
      by (simp add: tail_advance)
    from Cons.IH [OF this] obtain evs m where a:
      "w' = advance (advance w ?tail) evs" "m \<le> length rest"
      "progress_of evs = map (\<lambda>k. progress_value (i + 1 + k) n) [0..<m]"
      "\<forall>res. r = Inr res \<longrightarrow> m = length rest" "\<forall>env. replay evs env = env" by blast
    show ?thesis
      apply (rule exI [of _ "?tail @ evs"])
      apply (rule exI [of _ "Suc m"])
      using a apply (simp add: map_upt_Suc del: upt_Suc)
      done
  next
    case False
    obtain r0 wt where tt: "translate_text p tx w = (r0, wt)" by (cases "translate_text p tx w")
    from translate_text_advance [OF tt] obtain evs0 where
      wt: "wt = advance w evs0" and pe: "progress_of evs0 = []" "\<forall>env. replay evs0 env = env"
      by blast
    show ?thesis
    proof (cases r0)
      case (Inl e)
      with False Cons.prems tt have "r = Inl e" "w' = wt" by simp_all
      then show ?thesis using wt pe
        by (intro exI [of _ evs0] exI [of _ 0]) simp
    next
      case (Inr tr)
      with False Cons.prems tt wt
      have "run_loop p n rest (i + 1) (acc @ [tr]) (advance w (evs0 @ ?tail)) = (r, w')"
        by (simp add: tail_advance)
      from Cons.IH [OF this] obtain evs m where a:
        "w' = advance (advance w (evs0 @ ?tail)) evs" "m \<le> length rest"
        "progress_of evs = map (\<lambda>k. progress_value (i + 1 + k) n) [0..<m]"
        "\<forall>res. r = Inr res \<longrightarrow> m = length rest" "\<forall>env. replay evs env = env" by blast
      show ?thesis
        apply (rule exI [of _ "evs0 @ ?tail @ evs"])
        apply (rule exI [of _ "Suc m"])
        using a pe apply (simp add: map_upt_Suc del: upt_Suc)
        done
    qed
  qed
qed

lemmas run_eval0 = run_def run_try_def test_proxy_def clear_proxy_def start_def translate_text_cases
  world_ops advance_def Let_def py_eval float_eval

lemmas run_eval = run_eval0 numeral_2_eq_2 [symmetric]

lemma proxy_names_distinct [simp]: "http_proxy \<noteq> https_proxy" "https_proxy \<noteq> http_proxy"
  by (simp_all add: http_proxy_def https_proxy_def lit_def)

text \<open>
  C7: a batch run whose probe is answered with status 200 processes the texts in input
  order.  Its effects after the start signal are one segment per processed text: for a blank
  text the result is the empty string and the segment is the progress signal and the wait of
  0.5 only, so no provider call is made; for any other text the result is the result of
  \<open>translate_text\<close> on that text, called in the world left by the earlier items, and the
  segment is the effects of that call followed by the progress signal and the wait of 0.5.
  Either every text is processed and the run emits \<open>finished\<close> with the results, or the
  first text whose \<open>translate_text\<close> fails ends the batch with the \<open>error\<close> signal; when
  every \<open>translate_text\<close> succeeds, the run processes every text.
\<close>

theorem batch_items:
  "(let w1 = emit SigStarted (snd (test_proxy (Status 200) w)) in
     \<exists>segs outs. length segs = length outs \<and> length outs \<le> length texts
       \<and> (\<forall>k<length outs.
             if strip (texts ! k) = [] then
               outs ! k = []
               \<and> segs ! k = [SigProgress (progress_value k (length texts)), Sleep (1 / 2)]
             else
               (\<exists>evs. translate_text p (texts ! k) (advance w1 (concat (take k segs)))
                        = (Inr (outs ! k), advance (advance w1 (concat (take k segs))) evs)
                    \<and> segs ! k
                        = evs @ [SigProgress (progress_value k (length texts)), Sleep (1 / 2)]))
       \<and> (if length outs = length texts then
             run (Status 200) p texts w
               = clear_proxy (emit (SigFinished outs) (advance w1 (concat segs)))
           else
             strip (texts ! length outs) \<noteq> []
             \<and> (\<exists>e w'. translate_text p (texts ! length outs) (advance w1 (concat segs)) = (Inl e, w')
                   \<and> run (Status 200) p texts w = clear_proxy (emit (SigError e) w'))))
   \<and> ((\<forall>tx\<in>set texts. \<forall>w0. \<exists>res w'. translate_text p tx w0 = (Inr res, w'))
        \<longrightarrow> (\<exists>outs w'. length outs = length texts
               \<and> run (Status 200) p texts w = clear_proxy (emit (SigFinished outs) w')))"
proof -
  define w1 where "w1 = emit SigStarted (snd (test_proxy (Status 200) w))"
  have tp: "test_proxy (Status 200) w = (Inr True, snd (test_proxy (Status 200) w))"
    by (simp add: test_proxy_def Let_def)
  obtain r w2 where rl: "run_loop p (length texts) texts 0 [] w1 = (r, w2)"
    by (cases "run_loop p (length texts) texts 0 [] w1")
  have run_r: "run (Status 200) p texts w =
      (case r of Inl e \<Rightarrow> clear_proxy (emit (SigError e) w2)
               | Inr res \<Rightarrow> clear_proxy (emit (SigFinished res) w2))"
    using rl unfolding w1_def run_def run_try_def
    by (subst tp, subst tp) (simp split: sum.splits)
  from run_loop_items_aux [OF rl] obtain segs outs where
    len: "length segs = length outs" "length outs \<le> length texts"
    and items: "\<forall>k<length outs.
           if strip (texts ! k) = [] then
             outs ! k = [] \<and> segs ! k = [SigProgress (progress_value (0 + k) (length texts)), Sleep (1 / 2)]
           else
             (\<exists>evs. translate_text p (texts ! k) (advance w1 (concat (take k segs)))
                      = (Inr (outs ! k), advance (advance w1 (concat (take k segs))) evs)
                  \<and> segs ! k = evs @ [SigProgress (progress_value (0 + k) (length texts)), Sleep (1 / 2)])"
    and fin: "case r of
           Inr res \<Rightarrow> res = [] @ outs \<and> length outs = length texts \<and> w2 = advance w1 (concat segs)
         | Inl e \<Rightarrow> length outs < length texts \<and> strip (texts ! length outs) \<noteq> []
             \<and> translate_text p (texts ! length outs) (advance w1 (concat segs)) = (Inl e, w2)"
    by blast
  have items': "\<forall>k<length outs.
           if strip (texts ! k) = [] then
             outs ! k = [] \<and> segs ! k = [SigProgress (progress_value k (length texts)), Sleep (1 / 2)]
           else
             (\<exists>evs. translate_text p (texts ! k) (advance w1 (concat (take k segs)))
                      = (Inr (outs ! k), advance (advance w1 (concat (take k segs))) evs)
                  \<and> segs ! k = evs @ [SigProgress (progress_value k (length texts)), Sleep (1 / 2)])"
    using items unfolding add_0 .
  have last: "if length outs = length texts then
             run (Status 200) p texts w
               = clear_proxy (emit (SigFinished outs) (advance w1 (concat segs)))
           else
             strip (texts ! length outs) \<noteq> []
             \<and> (\<exists>e w'. translate_text p (texts ! length outs) (advance w1 (concat segs)) = (Inl e, w')
                   \<and> run (Status 200) p texts w = clear_proxy (emit (SigError e) w'))"
  proof (cases r)
    case (Inl e)
    with fin run_r show ?thesis by auto
  next
    case (Inr res)
    with fin run_r show ?thesis by auto
  qed
  have first: "\<exists>segs outs. length segs = length outs \<and> length outs \<le> length texts
       \<and> (\<forall>k<length outs.
             if strip (texts ! k) = [] then
               outs ! k = []
               \<and> segs ! k = [SigProgress (progress_value k (length texts)), Sleep (1 / 2)]
             else
               (\<exists>evs. translate_text p (texts ! k) (advance w1 (concat (take k segs)))
                        = (Inr (outs ! k), advance (advance w1 (concat (take k segs))) evs)
                    \<and> segs ! k
                        = evs @ [SigProgress (progress_value k (length texts)), Sleep (1 / 2)]))
       \<and> (if length outs = length texts then
             run (Status 200) p texts w
               = clear_proxy (emit (SigFinished outs) (advance w1 (concat segs)))
           else
             strip (texts ! length outs) \<noteq> []
             \<and> (\<exists>e w'. translate_text p (texts ! length outs) (advance w1 (concat segs)) = (Inl e, w')
                   \<and> run (Status 200) p texts w = clear_proxy (emit (SigError e) w')))"
    by (rule exI [of _ segs], rule exI [of _ outs], intro conjI) (rule len items' last)+
  have second: "\<exists>outs w'. length outs = length texts
               \<and> run (Status 200) p texts w = clear_proxy (emit (SigFinished outs) w')"
    if ok: "\<forall>tx\<in>set texts. \<forall>w0. \<exists>res w'. translate_text p tx w0 = (Inr res, w')"
  proof (cases "length outs = length texts")
    case True
    with last show ?thesis by auto
  next
    case False
    with len have lt: "length outs < length texts" by simp
    then have "texts ! length outs \<in> set texts" by simp
    with ok obtain res w' where
      "translate_text p (texts ! length outs) (advance w1 (concat segs)) = (Inr res, w')" by blast
    with last False show ?thesis by auto
  qed
  from first second show ?thesis unfolding Let_def w1_def by blast
qed

theorem batch_items_witness:
  "log (run (Status 200) (\<lambda>n t. if n < 1 then None else Some (t @ t)) [lit ''Hi'', lit '' '']
        (start Map.empty))
     = [SetEnv http_proxy proxy_url, SetEnv https_proxy proxy_url, Probe, SigStarted,
        Call (lit ''Hi''), Sleep 1, Call (lit ''Hi''), SigProgress 50, Sleep (1 / 2),
        SigProgress 100, Sleep (1 / 2), SigFinished [lit ''HiHi'', []],
        DelEnv http_proxy, DelEnv https_proxy]
   \<and> log (run (Status 200) (\<lambda>n t. None) [lit '' '', lit ''Hi''] (start Map.empty))
     = [SetEnv http_proxy proxy_url, SetEnv https_proxy proxy_url, Probe, SigStarted,
        SigProgress 50, Sleep (1 / 2),
        Call (lit ''Hi''), Sleep 1, Call (lit ''Hi''), Sleep 1, Call (lit ''Hi''), Sleep 1,
        SigError (TranslateFailed RetryLimit), DelEnv http_proxy, DelEnv https_proxy]
   \<and> (\<exists>outs w'. length outs = length [lit ''Hi'', lit '' '']
         \<and> run (Status 200) (\<lambda>n t. Some (t @ t)) [lit ''Hi'', lit '' ''] (start Map.empty)
             = clear_proxy (emit (SigFinished outs) w'))
   \<and> (\<exists>segs outs. length segs = length outs \<and> length outs \<le> length [lit '' '', lit ''Hi'']
         \<and> (if length outs = length [lit '' '', lit ''Hi''] then
               run (Status 200) (\<lambda>n t. None) [lit '' '', lit ''Hi''] (start Map.empty)
                 = clear_proxy (emit (SigFinished outs)
                     (advance (emit SigStarted (snd (test_proxy (Status 200) (start Map.empty))))
                        (concat segs)))
             else
               strip ([lit '' '', lit ''Hi''] ! length outs) \<noteq> []
               \<and> (\<exists>e w'. translate_text (\<lambda>n t. None) ([lit '' '', lit ''Hi''] ! length outs)
                       (advance (emit SigStarted (snd (test_proxy (Status 200) (start Map.empty))))
                          (concat segs)) = (Inl e, w')
                     \<and> run (Status 200) (\<lambda>n t. None) [lit '' '', lit ''Hi''] (start Map.empty)
                         = clear_proxy (emit (SigError e) w'))))"
proof -
  have a: "log (run (Status 200) (\<lambda>n t. if n < 1 then None else Some (t @ t)) [lit ''Hi'', lit '' '']
        (start Map.empty))
     = [SetEnv http_proxy proxy_url, SetEnv https_proxy proxy_url, Probe, SigStarted,
        Call (lit ''Hi''), Sleep 1, Call (lit ''Hi''), SigProgress 50, Sleep (1 / 2),
        SigProgress 100, Sleep (1 / 2), SigFinished [lit ''HiHi'', []],
        DelEnv http_proxy, DelEnv https_proxy]"
    by (simp add: run_eval)
  have b: "log (run (Status 200) (\<lambda>n t. None) [lit '' '', lit ''Hi''] (start Map.empty))
     = [SetEnv http_proxy proxy_url, SetEnv https_proxy proxy_url, Probe, SigStarted,
        SigProgress 50, Sleep (1 / 2),
        Call (lit ''Hi''), Sleep 1, Call (lit ''Hi''), Sleep 1, Call (lit ''Hi''), Sleep 1,
        SigError (TranslateFailed RetryLimit), DelEnv http_proxy, DelEnv https_proxy]"
    by (simp add: run_eval)
  have ok: "\<forall>tx\<in>set [lit ''Hi'', lit '' '']. \<forall>w0. \<exists>res w'.
      translate_text (\<lambda>n t. Some (t @ t)) tx w0 = (Inr res, w')"
    by (simp add: translate_text_cases)
  from batch_items [of "start Map.empty" "[lit ''Hi'', lit '' '']" "\<lambda>n t. Some (t @ t)"] ok
  have c: "\<exists>outs w'. length outs = length [lit ''Hi'', lit '' '']
         \<and> run (Status 200) (\<lambda>n t. Some (t @ t)) [lit ''Hi'', lit '' ''] (start Map.empty)
             = clear_proxy (emit (SigFinished outs) w')"
    by blast
  from batch_items [of "start Map.empty" "[lit '' '', lit ''Hi'']" "\<lambda>n t. None"]
  have d: "\<exists>segs outs. length segs = length outs \<and> length outs \<le> length [lit '' '', lit ''Hi'']
         \<and> (if length outs = length [lit '' '', lit ''Hi''] then
               run (Status 200) (\<lambda>n t. None) [lit '' '', lit ''Hi''] (start Map.empty)
                 = clear_proxy (emit (SigFinished outs)
                     (advance (emit SigStarted (snd (test_proxy (Status 200) (start Map.empty))))
                        (concat segs)))
             else
               strip ([lit '' '', lit ''Hi''] ! length outs) \<noteq> []
               \<and> (\<exists>e w'. translate_text (\<lambda>n t. None) ([lit '' '', lit ''Hi''] ! length outs)
                       (advance (emit SigStarted (snd (test_proxy (Status 200) (start Map.empty))))
                          (concat segs)) = (Inl e, w')
                     \<and> run (Status 200) (\<lambda>n t. None) [lit '' '', lit ''Hi''] (start Map.empty)
                         = clear_proxy (emit (SigError e) w')))"
    unfolding Let_def by blast
  from a b c d show ?thesis by (intro conjI)
qed

subsection \<open>The reachability probe\<close>

lemma run_probe_status_other:
  "status_code \<noteq> 200 \<Longrightarrow>
   run (Status status_code) p texts (start env) =
     \<lparr>environ = env(http_proxy := None, https_proxy := None), calls = 0,
      log = [SetEnv http_proxy proxy_url, SetEnv https_proxy proxy_url, Probe,
             DelEnv http_proxy, DelEnv https_proxy]\<rparr>"
  by (simp add: run_def run_try_def test_proxy_def clear_proxy_def start_def world_ops Let_def)

lemma run_probe_raises:
  "run (Raises msg) p texts (start env) =
     \<lparr>environ = env(http_proxy := None, https_proxy := None), calls = 0,
      log = [SetEnv http_proxy proxy_url, SetEnv https_proxy proxy_url, Probe,
             SigError (ProxyTestFailed msg), DelEnv http_proxy, DelEnv https_proxy]\<rparr>"
  by (simp add: run_def run_try_def test_proxy_def clear_proxy_def start_def world_ops Let_def)

text \<open>
  C3, at the failing input: a reachability request that is answered with status 503.  The
  worker sets and clears the proxy variables and makes no provider call, and it emits no
  signal at all, neither \<open>error\<close> nor \<open>finished\<close>.  (When the request raises, the error
  signal is emitted once, see \<open>run_probe_raises\<close>.)
\<close>

theorem run_probe_status_silent:
  "run (Status 503) p texts (start env) =
     \<lparr>environ = env(http_proxy := None, https_proxy := None), calls = 0,
      log = [SetEnv http_proxy proxy_url, SetEnv https_proxy proxy_url, Probe,
             DelEnv http_proxy, DelEnv https_proxy]\<rparr>"
  by (simp add: run_def run_try_def test_proxy_def clear_proxy_def start_def world_ops Let_def)

subsection \<open>Progress values and the proxy variables\<close>

lemma clear_proxy_environ:
  "environ (clear_proxy w) http_proxy = None \<and> environ (clear_proxy w) https_proxy = None"
  by (auto simp: clear_proxy_def Let_def world_ops)

lemma run_clears_proxy:
  "environ (run outcome p texts w) http_proxy = None
   \<and> environ (run outcome p texts w) https_proxy = None"
  by (simp add: run_def clear_proxy_environ split: prod.splits sum.splits)

lemma clear_proxy_log:
  "\<exists>evs. log (clear_proxy w) = log w @ evs \<and> progress_of evs = []
      \<and> environ (clear_proxy w) = replay evs (environ w)"
proof -
  consider "http_proxy \<in> dom (environ w)" "https_proxy \<in> dom (environ w)"
    | "http_proxy \<in> dom (environ w)" "https_proxy \<notin> dom (environ w)"
    | "http_proxy \<notin> dom (environ w)" "https_proxy \<in> dom (environ w)"
    | "http_proxy \<notin> dom (environ w)" "https_proxy \<notin> dom (environ w)"
    by blast
  then show ?thesis
  proof cases
    case 1
    then show ?thesis
      by (intro exI [of _ "[DelEnv http_proxy, DelEnv https_proxy]"])
         (auto simp: clear_proxy_def Let_def world_ops)
  next
    case 2
    then show ?thesis
      by (intro exI [of _ "[DelEnv http_proxy]"]) (auto simp: clear_proxy_def Let_def world_ops)
  next
    case 3
    then show ?thesis
      by (intro exI [of _ "[DelEnv https_proxy]"]) (auto simp: clear_proxy_def Let_def world_ops)
  next
    case 4
    then show ?thesis
      by (intro exI [of _ "[]"]) (auto simp: clear_proxy_def Let_def world_ops)
  qed
qed

lemma test_proxy_log:
  "test_proxy outcome w = (r, w') \<Longrightarrow>
     log w' = log w @ [SetEnv http_proxy proxy_url, SetEnv https_proxy proxy_url, Probe]
     \<and> environ w' = replay [SetEnv http_proxy proxy_url, SetEnv https_proxy proxy_url, Probe] (environ w)
     \<and> calls w' = calls w"
  by (auto simp: test_proxy_def Let_def world_ops split: probe_outcome.splits if_splits)

lemma run_try_effects:
  assumes "run_try outcome p texts w = (r, w')"
  shows "\<exists>evs m. log w' = log w @ evs \<and> environ w' = replay evs (environ w)
      \<and> m \<le> length texts
      \<and> progress_of evs = map (\<lambda>i. progress_value i (length texts)) [0..<m]
      \<and> (outcome = Status 200 \<and> r = Inr () \<longrightarrow> m = length texts)"
proof -
  let ?pre = "[SetEnv http_proxy proxy_url, SetEnv https_proxy proxy_url, Probe]"
  obtain r1 w1 where tp: "test_proxy outcome w = (r1, w1)" by (cases "test_proxy outcome w")
  from test_proxy_log [OF tp] have w1: "log w1 = log w @ ?pre" "environ w1 = replay ?pre (environ w)"
    by simp_all
  show ?thesis
  proof (cases "r1 = Inr True")
    case False
    then have "w' = w1" "outcome \<noteq> Status 200"
      using assms tp
      by (auto simp: run_try_def test_proxy_def Let_def split: sum.splits probe_outcome.splits if_splits)
    then show ?thesis using w1
      by (intro exI [of _ ?pre] exI [of _ 0]) simp
  next
    case True
    obtain r2 w2 where rl: "run_loop p (length texts) texts 0 [] (emit SigStarted w1) = (r2, w2)"
      by (cases "run_loop p (length texts) texts 0 [] (emit SigStarted w1)")
    from run_loop_advance [OF rl] obtain evs m where a:
      "w2 = advance (emit SigStarted w1) evs" "m \<le> length texts"
      "progress_of evs = map (\<lambda>k. progress_value (0 + k) (length texts)) [0..<m]"
      "\<forall>res. r2 = Inr res \<longrightarrow> m = length texts" "\<forall>env. replay evs env = env" by blast
    show ?thesis
    proof (cases r2)
      case (Inl e)
      with True assms tp rl have "w' = w2" "r = Inl e" by (auto simp: run_try_def)
      then show ?thesis using a w1
        by (intro exI [of _ "?pre @ [SigStarted] @ evs"] exI [of _ m]) (simp add: emit_def)
    next
      case (Inr res)
      with True assms tp rl have "w' = emit (SigFinished res) w2" by (simp add: run_try_def)
      then show ?thesis using a w1 Inr
        by (intro exI [of _ "?pre @ [SigStarted] @ evs @ [SigFinished res]"] exI [of _ m])
           (simp add: emit_def)
    qed
  qed
qed

lemma run_effects:
  "\<exists>evs m. log (run outcome p texts w) = log w @ evs
      \<and> environ (run outcome p texts w) = replay evs (environ w)
      \<and> m \<le> length texts
      \<and> progress_of evs = map (\<lambda>i. progress_value i (length texts)) [0..<m]
      \<and> (outcome = Status 200 \<and> fst (run_try outcome p texts w) = Inr () \<longrightarrow> m = length texts)"
proof -
  obtain r w1 where rt: "run_try outcome p texts w = (r, w1)" by (cases "run_try outcome p texts w")
  from run_try_effects [OF rt] obtain evs m where a:
    "log w1 = log w @ evs" "environ w1 = replay evs (environ w)" "m \<le> length texts"
    "progress_of evs = map (\<lambda>i. progress_value i (length texts)) [0..<m]"
    "outcome = Status 200 \<and> r = Inr () \<longrightarrow> m = length texts" by blast
  show ?thesis
  proof (cases r)
    case (Inl e)
    from clear_proxy_log [of "emit (SigError e) w1"] obtain cs where
      "log (clear_proxy (emit (SigError e) w1)) = log (emit (SigError e) w1) @ cs"
      "progress_of cs = []"
      "environ (clear_proxy (emit (SigError e) w1)) = replay cs (environ (emit (SigError e) w1))"
      by blast
    then show ?thesis using a rt Inl
      by (intro exI [of _ "evs @ [SigError e] @ cs"] exI [of _ m]) (simp add: run_def emit_def)
  next
    case (Inr u)
    from clear_proxy_log [of w1] obtain cs where
      "log (clear_proxy w1) = log w1 @ cs" "progress_of cs = []"
      "environ (clear_proxy w1) = replay cs (environ w1)" by blast
    then show ?thesis using a rt Inr
      by (intro exI [of _ "evs @ cs"] exI [of _ m]) (simp add: run_def)
  qed
qed

lemma run_environ_replay:
  "environ (run outcome p texts (start env)) = replay (log (run outcome p texts (start env))) env"
  using run_effects [of outcome p texts "start env"] by (auto simp: start_def)

text \<open>
  C5 (as stated): the value emitted after item \<open>i\<close> is \<open>round((i+1)/total*100)\<close>.  For
  three texts the batch emits 33, 66 and 100; after the second item the rounded value is 67.
\<close>

theorem run_progress_counterexample:
  "progress_of (log (run (Status 200) (\<lambda>n t. Some t) [lit ''a'', lit ''b'', lit ''c'']
      (start Map.empty))) = [33, 66, 100]
   \<and> spec_progress 1 3 = 67"
proof
  show "progress_of (log (run (Status 200) (\<lambda>n t. Some t) [lit ''a'', lit ''b'', lit ''c'']
      (start Map.empty))) = [33, 66, 100]"
    by (simp add: run_eval)
  show "spec_progress 1 3 = 67"
    unfolding spec_progress_def by (rule round_unique) simp_all
qed

text \<open>
  C5 (amended): when the probe is answered with status 200 and the \<open>try\<close> body of \<open>run\<close>
  completes, the batch has emitted exactly one progress value per text, in order, and the
  value after item \<open>i\<close> is \<open>int((i + 1) / total * 100)\<close>: the double-precision product
  truncated, not rounded.
\<close>

theorem run_progress_values:
  assumes "run_try (Status 200) p texts w = (Inr (), w')"
  shows "progress_of (log (run (Status 200) p texts w)) =
           progress_of (log w) @ map (\<lambda>i. progress_value i (length texts)) [0..<length texts]"
  using run_effects [of "Status 200" p texts w] assms by auto

theorem run_progress_values_witness:
  "run_try (Status 200) (\<lambda>n t. Some t) [lit ''a'', lit ''b''] (start Map.empty) =
     (Inr (), \<lparr>environ = [http_proxy \<mapsto> proxy_url, https_proxy \<mapsto> proxy_url], calls = 2,
        log = [SetEnv http_proxy proxy_url, SetEnv https_proxy proxy_url, Probe, SigStarted,
               Call (lit ''a''), SigProgress 50, Sleep (1 / 2),
               Call (lit ''b''), SigProgress 100, Sleep (1 / 2),
               SigFinished [lit ''a'', lit ''b'']]\<rparr>)
   \<and> progress_of (log (run (Status 200) (\<lambda>n t. Some t) [lit ''a'', lit ''b''] (start Map.empty)))
       = progress_of (log (start Map.empty))
         @ map (\<lambda>i. progress_value i (length [lit ''a'', lit ''b''])) [0..<length [lit ''a'', lit ''b'']]"
proof -
  have e: "run_try (Status 200) (\<lambda>n t. Some t) [lit ''a'', lit ''b''] (start Map.empty) =
     (Inr (), \<lparr>environ = [http_proxy \<mapsto> proxy_url, https_proxy \<mapsto> proxy_url], calls = 2,
        log = [SetEnv http_proxy proxy_url, SetEnv https_proxy proxy_url, Probe, SigStarted,
               Call (lit ''a''), SigProgress 50, Sleep (1 / 2),
               Call (lit ''b''), SigProgress 100, Sleep (1 / 2),
               SigFinished [lit ''a'', lit ''b'']]\<rparr>)"
    by (simp add: run_eval)
  from run_progress_values [OF e] e show ?thesis by blast
qed

text \<open>
  C6, at the failing input: a batch of two texts cancelled after the first item, that is after
  seven effects of the worker.  Both proxy variables are still set: the \<open>finally\<close> clause
  that deletes them is not reached by a terminated thread.  (A run that ends by itself, with
  or without an error, leaves both unset, see \<open>run_clears_proxy\<close>.)
\<close>

theorem cancel_leaves_proxy_set:
  "cancelled_environ 7 (Status 200) (\<lambda>n t. Some t) [lit ''Hello'', lit ''World''] Map.empty
     = [http_proxy \<mapsto> proxy_url, https_proxy \<mapsto> proxy_url]
   \<and> take 7 (log (run (Status 200) (\<lambda>n t. Some t) [lit ''Hello'', lit ''World''] (start Map.empty)))
     = [SetEnv http_proxy proxy_url, SetEnv https_proxy proxy_url, Probe, SigStarted,
        Call (lit ''Hello''), SigProgress 50, Sleep (1 / 2)]"
  by (simp add: cancelled_environ_def run_eval)


section \<open>The line walks on subtitle documents\<close>

subsection \<open>Digits and whitespace\<close>

lemma isdigit_cp_decimal: "48 \<le> c \<Longrightarrow> c \<le> 57 \<Longrightarrow> isdigit_cp c"
  by (simp add: isdigit_cp_def digit_ranges_def)

lemma isspace_cp_decimal: "48 \<le> c \<Longrightarrow> c \<le> 57 \<Longrightarrow> \<not> isspace_cp c"
  by (simp add: isspace_cp_def space_ranges_def)

lemma str_nat_decimal: "list_all (\<lambda>c. 48 \<le> c \<and> c \<le> 57) (str_nat n)"
proof (induction n rule: str_nat.induct)
  case (1 n)
  show ?case
  proof (cases "n < 10")
    case True
    then show ?thesis by (subst str_nat.simps) simp
  next
    case False
    have "n mod 10 < 10" by simp
    then have "48 + n mod 10 \<le> 57" by linarith
    with False 1 show ?thesis by (subst str_nat.simps) simp
  qed
qed

lemma str_nat_not_Nil: "str_nat n \<noteq> []"
  by (subst str_nat.simps) simp

lemma strip_Nil [simp]: "strip [] = []"
  by (simp add: strip_def)

lemma isdigit_Nil [simp]: "\<not> isdigit []"
  by (simp add: isdigit_def)

lemma strip_no_space:
  assumes "s \<noteq> []" "\<not> isspace_cp (hd s)" "\<not> isspace_cp (last s)"
  shows "strip s = s"
proof -
  from assms have a: "dropWhile isspace_cp s = s" by (cases s) simp_all
  from assms have "rev s \<noteq> []" "\<not> isspace_cp (hd (rev s))" by (simp_all add: hd_rev)
  then have "dropWhile isspace_cp (rev s) = rev s" by (cases "rev s") simp_all
  with a show ?thesis by (simp add: strip_def)
qed

lemma all_digits_decimal: "list_all (\<lambda>c. 48 \<le> c \<and> c \<le> 57) s \<Longrightarrow> all_digits s"
  by (induction s) (simp_all add: isdigit_cp_decimal)

lemma strip_decimal:
  assumes "list_all (\<lambda>c. 48 \<le> c \<and> c \<le> 57) s"
  shows "strip s = s"
proof (cases "s = []")
  case True
  then show ?thesis by simp
next
  case False
  with assms have "48 \<le> hd s \<and> hd s \<le> 57" "48 \<le> last s \<and> last s \<le> 57"
    by (simp_all add: list_all_iff)
  then show ?thesis using False by (intro strip_no_space) (simp_all add: isspace_cp_decimal)
qed

lemma strip_str_nat [simp]: "strip (str_nat n) = str_nat n"
  by (rule strip_decimal [OF str_nat_decimal])

lemma isdigit_str_nat [simp]: "isdigit (str_nat n)"
  by (simp add: isdigit_def str_nat_not_Nil all_digits_decimal [OF str_nat_decimal])

subsection \<open>The merge walk, block by block\<close>

lemma drop_eq_ConsD:
  "drop i ls = a # rest \<Longrightarrow> i < length ls \<and> ls ! i = a \<and> drop (i + 1) ls = rest"
  by (metis Cons_nth_drop_Suc Suc_eq_plus1 drop_eq_Nil2 linorder_not_less list.discI list.inject)

lemma merge_walk_skip:
  assumes "list_all (\<lambda>y. \<not> isdigit (strip y)) ys" "drop i ls = ys @ rest"
  shows "merge_walk ls ts i ti acc = merge_walk ls ts (i + length ys) ti (acc @ ys)"
  using assms
proof (induction ys arbitrary: i acc)
  case Nil
  then show ?case by simp
next
  case (Cons y ys)
  from Cons.prems(2) have d: "i < length ls" "ls ! i = y" "drop (i + 1) ls = ys @ rest"
    using drop_eq_ConsD [of i ls y "ys @ rest"] by simp_all
  from Cons.prems(1) have nd: "\<not> isdigit (strip y)" and ys: "list_all (\<lambda>y. \<not> isdigit (strip y)) ys"
    by simp_all
  have "merge_walk ls ts i ti acc = merge_walk ls ts (i + 1) ti (acc @ [y])"
    using d nd by (subst merge_walk_unfold) simp
  also have "\<dots> = merge_walk ls ts (i + 1 + length ys) ti ((acc @ [y]) @ ys)"
    by (rule Cons.IH [OF ys d(3)])
  finally show ?case by simp
qed

lemma merge_walk_block:
  assumes "wf_block b" "drop i ls = block_lines b @ rest"
  shows "merge_walk ls ts i ti acc =
     (if ti < length ts then
        merge_walk ls ts (i + length (block_lines b)) (ti + 1)
          (acc @ block_lines (insert_translation b (ts ! ti)))
      else merge_walk ls ts (i + length (block_lines b)) ti (acc @ block_lines b))"
proof -
  from assms(1) obtain t1 more where tl: "text_lines b = t1 # more"
    and more: "list_all (\<lambda>l. \<not> isdigit (strip l)) more"
    by (cases "text_lines b") (auto simp: wf_block_def)
  let ?tail = "more @ [[]]"
  have bl: "block_lines b = str_nat (index b) # timeRange b # t1 # ?tail"
    by (simp add: block_lines_def tl)
  from assms(2) bl have d0: "drop i ls = str_nat (index b) # timeRange b # t1 # ?tail @ rest"
    by simp
  from drop_eq_ConsD [OF d0] have i0: "i < length ls" "ls ! i = str_nat (index b)"
    and d1: "drop (i + 1) ls = timeRange b # t1 # ?tail @ rest" by simp_all
  from drop_eq_ConsD [OF d1] have i1: "i + 1 < length ls" "ls ! (i + 1) = timeRange b"
    and d2: "drop (i + 1 + 1) ls = t1 # ?tail @ rest" by simp_all
  from drop_eq_ConsD [OF d2] have i2: "i + 2 < length ls" "ls ! (i + 2) = t1"
    and d3: "drop (i + 3) ls = ?tail @ rest" by (simp_all add: numeral_3_eq_3)
  have tail: "list_all (\<lambda>y. \<not> isdigit (strip y)) ?tail" using more by simp
  have len: "i + 3 + length ?tail = i + length (block_lines b)" by (simp add: bl)
  have out1: "(acc @ [str_nat (index b), timeRange b, t1, ts ! ti]) @ ?tail
      = acc @ block_lines (insert_translation b (ts ! ti))"
    by (simp add: block_lines_def insert_translation_def tl)
  have out0: "(acc @ [str_nat (index b), timeRange b, t1]) @ ?tail = acc @ block_lines b"
    by (simp add: bl)
  show ?thesis
  proof (cases "ti < length ts")
    case True
    have "merge_walk ls ts i ti acc =
        merge_walk ls ts (i + 3) (ti + 1) (acc @ [str_nat (index b), timeRange b, t1, ts ! ti])"
      using i0 i1 i2 True by (subst merge_walk_unfold) simp
    also have "\<dots> = merge_walk ls ts (i + 3 + length ?tail) (ti + 1)
        ((acc @ [str_nat (index b), timeRange b, t1, ts ! ti]) @ ?tail)"
      by (rule merge_walk_skip [OF tail d3])
    finally show ?thesis using True unfolding len out1 by simp
  next
    case False
    have "merge_walk ls ts i ti acc =
        merge_walk ls ts (i + 3) ti (acc @ [str_nat (index b), timeRange b, t1])"
      using i0 i1 i2 False by (subst merge_walk_unfold) simp
    also have "\<dots> = merge_walk ls ts (i + 3 + length ?tail) ti
        ((acc @ [str_nat (index b), timeRange b, t1]) @ ?tail)"
      by (rule merge_walk_skip [OF tail d3])
    finally show ?thesis using False unfolding len out0 by simp
  qed
qed

lemma drop_append_eqD: "drop i ls = xs @ ys \<Longrightarrow> drop (i + length xs) ls = ys"
  by (metis add.commute append_eq_conv_conj drop_drop)

lemma document_lines_Cons [simp]:
  "document_lines (b # bs) = block_lines b @ document_lines bs"
  by (simp add: document_lines_def)

lemma document_lines_Nil [simp]: "document_lines [] = []"
  by (simp add: document_lines_def)

lemma bilingual_Nil [simp]: "bilingual doc [] = doc"
  by (cases doc) simp_all

lemma bilingual_zip:
  "length ts = length doc \<Longrightarrow>
     bilingual doc ts = map (\<lambda>(b, t). insert_translation b t) (zip doc ts)"
  by (induction doc ts rule: list_induct2') simp_all

lemma merge_walk_document:
  assumes "wf_document doc" "drop i ls = document_lines doc @ rest"
  shows "merge_walk ls ts i ti acc =
     merge_walk ls ts (i + length (document_lines doc)) (ti + min (length doc) (length ts - ti))
       (acc @ document_lines (bilingual doc (drop ti ts)))"
  using assms
proof (induction doc arbitrary: i ti acc)
  case Nil
  then show ?case by simp
next
  case (Cons b bs)
  from Cons.prems(1) have wb: "wf_block b" and wbs: "wf_document bs"
    by (simp_all add: wf_document_def)
  from Cons.prems(2) have d: "drop i ls = block_lines b @ (document_lines bs @ rest)" by simp
  have d': "drop (i + length (block_lines b)) ls = document_lines bs @ rest"
    by (rule drop_append_eqD [OF d])
  show ?case
  proof (cases "ti < length ts")
    case True
    then have dr: "drop ti ts = ts ! ti # drop (ti + 1) ts"
      by (simp add: Cons_nth_drop_Suc)
    have ar: "ti + 1 + min (length bs) (length ts - (ti + 1))
        = ti + min (length (b # bs)) (length ts - ti)"
      using True by auto
    have "merge_walk ls ts i ti acc =
        merge_walk ls ts (i + length (block_lines b)) (ti + 1)
          (acc @ block_lines (insert_translation b (ts ! ti)))"
      using merge_walk_block [OF wb d, of ts ti acc] True by simp
    also have "\<dots> = merge_walk ls ts (i + length (block_lines b) + length (document_lines bs))
          (ti + 1 + min (length bs) (length ts - (ti + 1)))
          ((acc @ block_lines (insert_translation b (ts ! ti)))
            @ document_lines (bilingual bs (drop (ti + 1) ts)))"
      by (rule Cons.IH [OF wbs d'])
    finally show ?thesis unfolding ar dr by (simp add: add.assoc)
  next
    case False
    then have dr: "drop ti ts = []" by simp
    have ar: "ti + min (length bs) (length ts - ti) = ti + min (length (b # bs)) (length ts - ti)"
      using False by auto
    have "merge_walk ls ts i ti acc =
        merge_walk ls ts (i + length (block_lines b)) ti (acc @ block_lines b)"
      using merge_walk_block [OF wb d, of ts ti acc] False by simp
    also have "\<dots> = merge_walk ls ts (i + length (block_lines b) + length (document_lines bs))
          (ti + min (length bs) (length ts - ti))
          ((acc @ block_lines b) @ document_lines (bilingual bs (drop ti ts)))"
      by (rule Cons.IH [OF wbs d'])
    finally show ?thesis unfolding ar dr by (simp add: add.assoc)
  qed
qed

lemma blank_lines_no_digit: "list_all (\<lambda>y. \<not> isdigit (strip y)) (replicate n [])"
  by (induction n) simp_all

lemma merge_walk_document_end:
  assumes "wf_document doc"
  shows "merge_walk (document_lines doc @ replicate n []) ts 0 0 [] =
     Inr (document_lines (bilingual doc ts) @ replicate n [], min (length doc) (length ts))"
proof -
  let ?ls = "document_lines doc @ replicate n []"
  have "merge_walk ?ls ts 0 0 [] =
      merge_walk ?ls ts (0 + length (document_lines doc)) (0 + min (length doc) (length ts - 0))
        ([] @ document_lines (bilingual doc (drop 0 ts)))"
    by (rule merge_walk_document [OF assms]) simp
  also have "\<dots> = merge_walk ?ls ts (length (document_lines doc)) (min (length doc) (length ts))
        (document_lines (bilingual doc ts))"
    by simp
  also have "\<dots> = merge_walk ?ls ts (length (document_lines doc) + length (replicate n ([]::pystr)))
        (min (length doc) (length ts)) (document_lines (bilingual doc ts) @ replicate n [])"
    by (rule merge_walk_skip [OF blank_lines_no_digit]) simp
  also have "\<dots> = Inr (document_lines (bilingual doc ts) @ replicate n [], min (length doc) (length ts))"
    by (rule merge_walk_past) simp
  finally show ?thesis .
qed

lemmas doc_eval = document_lines_def block_lines_def wf_document_def wf_block_def
  spec_merge_def spec_merge_block_def spec_extract_def insert_translation_def str_nat.simps
  process_subtitle_lines_def merge_lines_def merge_walk_unfold process_walk_unfold py_eval
  numeral_2_eq_2 [symmetric]

text \<open>
  C1 (as stated): the merge appends \<open>translations[i]\<close> after the text lines of block \<open>i\<close>
  exactly when it is non-empty, and leaves the block unchanged when it is empty.  In a
  document of two blocks, the first with two text lines, merged with a translation for the
  first block and the empty string for the second, the translation of the first block
  stands between its two text lines, and the second block has gained an empty line.
\<close>

theorem merge_spec_counterexample:
  "merge_lines
     (document_lines
        [\<lparr>index = 1, timeRange = lit ''00:01 --> 00:02'', text_lines = [lit ''Hello'', lit ''there'']\<rparr>,
         \<lparr>index = 2, timeRange = lit ''00:03 --> 00:04'', text_lines = [lit ''World'']\<rparr>])
     [[20320, 22909], []]
   = Inr [lit ''1'', lit ''00:01 --> 00:02'', lit ''Hello'', [20320, 22909], lit ''there'', [],
          lit ''2'', lit ''00:03 --> 00:04'', lit ''World'', [], []]
   \<and> document_lines
       (spec_merge
          [\<lparr>index = 1, timeRange = lit ''00:01 --> 00:02'', text_lines = [lit ''Hello'', lit ''there'']\<rparr>,
           \<lparr>index = 2, timeRange = lit ''00:03 --> 00:04'', text_lines = [lit ''World'']\<rparr>]
          [[20320, 22909], []])
   = [lit ''1'', lit ''00:01 --> 00:02'', lit ''Hello'', lit ''there'', [20320, 22909], [],
      lit ''2'', lit ''00:03 --> 00:04'', lit ''World'', []]"
  by (simp add: doc_eval)

text \<open>
  C1 (amended): for every document whose blocks the walk reads as one caption each, and every
  list of translations of equal length, the merge inserts \<open>translations[i]\<close> as an
  additional line directly after the first text line of block \<open>i\<close>, whether or not it is
  empty; nothing else changes (\<open>n\<close> blank lines may follow the document).
\<close>

theorem merge_inserts_translations:
  assumes "wf_document doc" "length translated_texts = length doc"
  shows "merge_lines (document_lines doc @ replicate n []) translated_texts =
     Inr (document_lines (map (\<lambda>(b, t). insert_translation b t) (zip doc translated_texts))
          @ replicate n [])"
  using merge_walk_document_end [OF assms(1), of n translated_texts] assms(2)
  by (simp add: merge_lines_def bilingual_zip)

theorem merge_inserts_translations_witness:
  "merge_lines
     (document_lines
        [\<lparr>index = 1, timeRange = lit ''00:01 --> 00:02'', text_lines = [lit ''Hello'', lit ''there'']\<rparr>,
         \<lparr>index = 2, timeRange = lit ''00:03 --> 00:04'', text_lines = [lit ''World'']\<rparr>]
      @ replicate 1 [])
     [[20320, 22909], []]
   = Inr [lit ''1'', lit ''00:01 --> 00:02'', lit ''Hello'', [20320, 22909], lit ''there'', [],
          lit ''2'', lit ''00:03 --> 00:04'', lit ''World'', [], [], []]"
proof -
  let ?doc = "[\<lparr>index = 1, timeRange = lit ''00:01 --> 00:02'', text_lines = [lit ''Hello'', lit ''there'']\<rparr>,
         \<lparr>index = 2, timeRange = lit ''00:03 --> 00:04'', text_lines = [lit ''World'']\<rparr>]"
  have wf: "wf_document ?doc" by (simp add: doc_eval)
  have len: "length [[20320, 22909], []::pystr] = length ?doc" by simp
  from merge_inserts_translations [OF wf len, of 1] show ?thesis
    by (simp add: doc_eval)
qed

subsection \<open>Extraction of the texts to translate\<close>

lemma process_walk_skip:
  assumes "list_all (\<lambda>y. \<not> isdigit (strip y)) ys" "drop i ls = ys @ rest"
  shows "process_walk ls pt i c r = process_walk ls pt (i + length ys) c r"
  using assms
proof (induction ys arbitrary: i)
  case Nil
  then show ?case by simp
next
  case (Cons y ys)
  from Cons.prems(2) have d: "i < length ls" "ls ! i = y" "drop (i + 1) ls = ys @ rest"
    using drop_eq_ConsD [of i ls y "ys @ rest"] by simp_all
  from Cons.prems(1) have nd: "\<not> isdigit (strip y)" and ys: "list_all (\<lambda>y. \<not> isdigit (strip y)) ys"
    by simp_all
  have "process_walk ls pt i c r = process_walk ls pt (i + 1) c r"
    using d nd by (subst process_walk_unfold) simp
  also have "\<dots> = process_walk ls pt (i + 1 + length ys) c r"
    by (rule Cons.IH [OF ys d(3)])
  finally show ?case by simp
qed

lemma process_walk_translate_block:
  assumes "wf_block b" "drop i ls = block_lines b @ rest"
  shows "process_walk ls (lit ''translate'') i c r =
     process_walk ls (lit ''translate'') (i + length (block_lines b)) c
       (r @ [strip (hd (text_lines b))])"
proof -
  from assms(1) obtain t1 more where tl: "text_lines b = t1 # more"
    and more: "list_all (\<lambda>l. \<not> isdigit (strip l)) more"
    by (cases "text_lines b") (auto simp: wf_block_def)
  let ?tail = "more @ [[]]"
  have bl: "block_lines b = str_nat (index b) # timeRange b # t1 # ?tail"
    by (simp add: block_lines_def tl)
  from assms(2) bl have d0: "drop i ls = str_nat (index b) # timeRange b # t1 # ?tail @ rest"
    by simp
  from drop_eq_ConsD [OF d0] have i0: "i < length ls" "ls ! i = str_nat (index b)"
    and d1: "drop (i + 1) ls = timeRange b # t1 # ?tail @ rest" by simp_all
  from drop_eq_ConsD [OF d1] have d2: "drop (i + 1 + 1) ls = t1 # ?tail @ rest" by simp
  from drop_eq_ConsD [OF d2] have i2: "i + 2 < length ls" "ls ! (i + 2) = t1"
    and d3: "drop (i + 3) ls = ?tail @ rest" by (simp_all add: numeral_3_eq_3)
  have tail: "list_all (\<lambda>y. \<not> isdigit (strip y)) ?tail" using more by simp
  have len: "i + 3 + length ?tail = i + length (block_lines b)" by (simp add: bl)
  have "process_walk ls (lit ''translate'') i c r =
      process_walk ls (lit ''translate'') (i + 3) c (r @ [strip t1])"
    using i0 i2 by (subst process_walk_unfold) simp
  also have "\<dots> = process_walk ls (lit ''translate'') (i + 3 + length ?tail) c (r @ [strip t1])"
    by (rule process_walk_skip [OF tail d3])
  finally show ?thesis unfolding len by (simp add: tl)
qed

lemma process_walk_translate_document:
  assumes "wf_document doc" "drop i ls = document_lines doc @ rest"
  shows "process_walk ls (lit ''translate'') i c r =
     process_walk ls (lit ''translate'') (i + length (document_lines doc)) c
       (r @ map (\<lambda>b. strip (hd (text_lines b))) doc)"
  using assms
proof (induction doc arbitrary: i r)
  case Nil
  then show ?case by simp
next
  case (Cons b bs)
  from Cons.prems(1) have wb: "wf_block b" and wbs: "wf_document bs"
    by (simp_all add: wf_document_def)
  from Cons.prems(2) have d: "drop i ls = block_lines b @ (document_lines bs @ rest)" by simp
  have d': "drop (i + length (block_lines b)) ls = document_lines bs @ rest"
    by (rule drop_append_eqD [OF d])
  have "process_walk ls (lit ''translate'') i c r =
      process_walk ls (lit ''translate'') (i + length (block_lines b)) c
        (r @ [strip (hd (text_lines b))])"
    by (rule process_walk_translate_block [OF wb d])
  also have "\<dots> = process_walk ls (lit ''translate'')
        (i + length (block_lines b) + length (document_lines bs)) c
        ((r @ [strip (hd (text_lines b))]) @ map (\<lambda>b. strip (hd (text_lines b))) bs)"
    by (rule Cons.IH [OF wbs d'])
  finally show ?case by (simp add: add.assoc)
qed

lemma extract_document:
  assumes "wf_document doc"
  shows "process_subtitle_lines (document_lines doc @ replicate n []) (lit ''translate'') =
     map (\<lambda>b. strip (hd (text_lines b))) doc"
proof -
  let ?ls = "document_lines doc @ replicate n []"
  let ?pt = "lit ''translate''"
  let ?out = "map (\<lambda>b. strip (hd (text_lines b))) doc"
  have "process_walk ?ls ?pt 0 1 [] =
      process_walk ?ls ?pt (0 + length (document_lines doc)) 1 ([] @ ?out)"
    by (rule process_walk_translate_document [OF assms]) simp
  also have "\<dots> = process_walk ?ls ?pt (length (document_lines doc)) 1 ?out" by simp
  also have "\<dots> = process_walk ?ls ?pt
      (length (document_lines doc) + length (replicate n ([]::pystr))) 1 ?out"
    by (rule process_walk_skip [OF blank_lines_no_digit]) simp
  also have "\<dots> = ?out" by (rule process_walk_past) simp
  finally show ?thesis by (simp add: process_subtitle_lines_def)
qed

text \<open>
  C8 (as stated): the extraction returns, per block, the block's first text line.  For a block
  whose text line ends in a space it returns the line without the space.
\<close>

theorem extract_spec_counterexample:
  "wf_document [\<lparr>index = 1, timeRange = lit ''00:01 --> 00:02'', text_lines = [lit ''Hello '']\<rparr>]
   \<and> process_subtitle_lines
       (document_lines
          [\<lparr>index = 1, timeRange = lit ''00:01 --> 00:02'', text_lines = [lit ''Hello '']\<rparr>])
       (lit ''translate'') = [lit ''Hello'']
   \<and> spec_extract [\<lparr>index = 1, timeRange = lit ''00:01 --> 00:02'', text_lines = [lit ''Hello '']\<rparr>]
       = [lit ''Hello '']"
  by (simp add: doc_eval)

text \<open>
  C8 (amended): for every well-formed document with \<open>N\<close> blocks the extraction returns
  exactly \<open>N\<close> strings, one per block in order, each equal to that block's first text line
  with leading and trailing whitespace removed; and the merge, given \<open>N\<close> translations,
  consumes exactly \<open>N\<close> of them (its final \<open>trans_index\<close> is \<open>N\<close>), the translation at
  position \<open>i\<close> going to block \<open>i\<close>.
\<close>

theorem extract_and_merge_aligned:
  assumes "wf_document doc" "length translated_texts = length doc"
  shows "process_subtitle_lines (document_lines doc @ replicate n []) (lit ''translate'')
       = map (\<lambda>b. strip (hd (text_lines b))) doc
     \<and> length (process_subtitle_lines (document_lines doc @ replicate n []) (lit ''translate''))
       = length doc
     \<and> merge_walk (document_lines doc @ replicate n []) translated_texts 0 0 []
       = Inr (document_lines (map (\<lambda>(b, t). insert_translation b t) (zip doc translated_texts))
              @ replicate n [], length doc)"
  using extract_document [OF assms(1), of n]
    merge_walk_document_end [OF assms(1), of n translated_texts] assms(2)
  by (simp add: bilingual_zip)

theorem extract_and_merge_aligned_witness:
  "process_subtitle_lines
     (document_lines
        [\<lparr>index = 1, timeRange = lit ''00:01 --> 00:02'', text_lines = [lit ''Hello '', lit ''there'']\<rparr>,
         \<lparr>index = 2, timeRange = lit ''00:03 --> 00:04'', text_lines = [lit ''World'']\<rparr>]
      @ replicate 1 [])
     (lit ''translate'') = [lit ''Hello'', lit ''World'']
   \<and> merge_walk
     (document_lines
        [\<lparr>index = 1, timeRange = lit ''00:01 --> 00:02'', text_lines = [lit ''Hello '', lit ''there'']\<rparr>,
         \<lparr>index = 2, timeRange = lit ''00:03 --> 00:04'', text_lines = [lit ''World'']\<rparr>]
      @ replicate 1 [])
     [[20320, 22909], [19990, 30028]] 0 0 []
   = Inr ([lit ''1'', lit ''00:01 --> 00:02'', lit ''Hello '', [20320, 22909], lit ''there'', [],
           lit ''2'', lit ''00:03 --> 00:04'', lit ''World'', [19990, 30028], [], []], 2)"
proof -
  let ?doc = "[\<lparr>index = 1, timeRange = lit ''00:01 --> 00:02'', text_lines = [lit ''Hello '', lit ''there'']\<rparr>,
         \<lparr>index = 2, timeRange = lit ''00:03 --> 00:04'', text_lines = [lit ''World'']\<rparr>]"
  have wf: "wf_document ?doc" by (simp add: doc_eval)
  have len: "length [[20320, 22909], [19990, 30028::nat]] = length ?doc" by simp
  from extract_and_merge_aligned [OF wf len, of 1] show ?thesis
    by (simp add: doc_eval)
qed

subsection \<open>The translated-only output\<close>

lemma process_walk_chinese_block:
  assumes "pt \<noteq> lit ''translate''" "wf_block b" "\<not> isdigit (strip t)"
    "drop i ls = block_lines (insert_translation b t) @ rest"
  shows "process_walk ls pt i c r =
     process_walk ls pt (i + length (block_lines (insert_translation b t))) (c + 1)
       (r @ [str_nat c, timeRange b, t])"
proof -
  from assms(2) obtain t1 more where tl: "text_lines b = t1 # more"
    and more: "list_all (\<lambda>l. \<not> isdigit (strip l)) more"
    by (cases "text_lines b") (auto simp: wf_block_def)
  let ?tail = "more @ [[]]"
  have bl: "block_lines (insert_translation b t) = str_nat (index b) # timeRange b # t1 # t # ?tail"
    by (simp add: block_lines_def insert_translation_def tl)
  from assms(4) bl have d0: "drop i ls = str_nat (index b) # timeRange b # t1 # t # ?tail @ rest"
    by simp
  from drop_eq_ConsD [OF d0] have i0: "i < length ls" "ls ! i = str_nat (index b)"
    and d1: "drop (i + 1) ls = timeRange b # t1 # t # ?tail @ rest" by simp_all
  from drop_eq_ConsD [OF d1] have i1: "i + 1 < length ls" "ls ! (i + 1) = timeRange b"
    and d2: "drop (i + 1 + 1) ls = t1 # t # ?tail @ rest" by simp_all
  from drop_eq_ConsD [OF d2] have d3: "drop (i + 1 + 1 + 1) ls = t # ?tail @ rest" by simp
  from drop_eq_ConsD [OF d3] have i3: "i + 3 < length ls" "ls ! (i + 3) = t"
    and d4: "drop (i + 4) ls = ?tail @ rest" by (simp_all add: eval_nat_numeral)
  have tail: "list_all (\<lambda>y. \<not> isdigit (strip y)) ?tail" using more by simp
  have len: "i + 4 + length ?tail = i + length (block_lines (insert_translation b t))"
    by (simp add: bl)
  have "process_walk ls pt i c r =
      process_walk ls pt (i + 4) (c + 1) (r @ [str_nat c, timeRange b, t])"
    using i0 i1 i3 assms(1,3) by (subst process_walk_unfold) simp
  also have "\<dots> = process_walk ls pt (i + 4 + length ?tail) (c + 1) (r @ [str_nat c, timeRange b, t])"
    by (rule process_walk_skip [OF tail d4])
  finally show ?thesis unfolding len .
qed

lemma process_walk_chinese_document:
  assumes "pt \<noteq> lit ''translate''" "wf_document doc" "length ts = length doc"
    "list_all (\<lambda>t. \<not> isdigit (strip t)) ts"
    "drop i ls = document_lines (bilingual doc ts) @ rest"
  shows "process_walk ls pt i c r =
     process_walk ls pt (i + length (document_lines (bilingual doc ts))) (c + length doc)
       (r @ renumbered_lines c doc ts)"
  using assms(3,2,4,5)
proof (induction ts doc arbitrary: i c r rule: list_induct2)
  case Nil
  then show ?case by simp
next
  case (Cons t ts b bs)
  from Cons.prems(1) have wb: "wf_block b" and wbs: "wf_document bs"
    by (simp_all add: wf_document_def)
  from Cons.prems(2) have nt: "\<not> isdigit (strip t)"
    and nts: "list_all (\<lambda>t. \<not> isdigit (strip t)) ts" by simp_all
  let ?bl = "block_lines (insert_translation b t)"
  from Cons.prems(3)
  have d: "drop i ls = ?bl @ (document_lines (bilingual bs ts) @ rest)" by simp
  have d': "drop (i + length ?bl) ls = document_lines (bilingual bs ts) @ rest"
    by (rule drop_append_eqD [OF d])
  have "process_walk ls pt i c r =
      process_walk ls pt (i + length ?bl) (c + 1) (r @ [str_nat c, timeRange b, t])"
    by (rule process_walk_chinese_block [OF assms(1) wb nt d])
  also have "\<dots> = process_walk ls pt
        (i + length ?bl + length (document_lines (bilingual bs ts))) (c + 1 + length bs)
        ((r @ [str_nat c, timeRange b, t]) @ renumbered_lines (c + 1) bs ts)"
    by (rule Cons.IH [OF wbs nts d'])
  finally show ?case by (simp add: add.assoc)
qed

lemma chinese_only_document:
  assumes "pt \<noteq> lit ''translate''" "wf_document doc" "length ts = length doc"
    "list_all (\<lambda>t. \<not> isdigit (strip t)) ts"
  shows "process_subtitle_lines (document_lines (bilingual doc ts) @ replicate n []) pt =
     renumbered_lines 1 doc ts"
proof -
  let ?ls = "document_lines (bilingual doc ts) @ replicate n []"
  let ?out = "renumbered_lines 1 doc ts"
  let ?m = "length (document_lines (bilingual doc ts))"
  have "process_walk ?ls pt 0 1 [] = process_walk ?ls pt (0 + ?m) (1 + length doc) ([] @ ?out)"
    by (rule process_walk_chinese_document [OF assms]) simp
  also have "\<dots> = process_walk ?ls pt ?m (1 + length doc) ?out" by simp
  also have "\<dots> = process_walk ?ls pt (?m + length (replicate n ([]::pystr))) (1 + length doc) ?out"
    by (rule process_walk_skip [OF blank_lines_no_digit]) simp
  also have "\<dots> = ?out" by (rule process_walk_past) simp
  finally show ?thesis by (simp add: process_subtitle_lines_def)
qed

text \<open>
  The merged text is written to the text box joined by line feeds and split again when the
  translated-only file is saved; lines without a line feed survive this unchanged.
\<close>

lemma split_lines_line:
  "10 \<notin> set l \<Longrightarrow> split_lines (l @ 10 # cs) = l # split_lines cs"
  by (induction l) auto

lemma split_lines_not_Nil: "split_lines s \<noteq> []"
  by (induction s) (auto split: list.splits)

lemma split_lines_no_newline: "10 \<notin> set l \<Longrightarrow> split_lines l = [l]"
  by (induction l) auto

lemma split_join_lines:
  "ls \<noteq> [] \<Longrightarrow> list_all (\<lambda>l. 10 \<notin> set l) ls \<Longrightarrow> split_lines (join_lines ls) = ls"
proof (induction ls rule: join_lines.induct)
  case 1
  then show ?case by simp
next
  case (2 l)
  then show ?case by (simp add: split_lines_no_newline)
next
  case (3 l v va)
  then show ?case by (simp add: split_lines_line)
qed

lemma bilingual_no_newline:
  assumes "wf_document doc" "list_all (\<lambda>l. 10 \<notin> set l) (document_lines doc)"
    "list_all (\<lambda>t. 10 \<notin> set t) ts"
  shows "list_all (\<lambda>l. 10 \<notin> set l) (document_lines (bilingual doc ts))"
  using assms
proof (induction doc ts rule: bilingual.induct)
  case (1 ts)
  then show ?case by simp
next
  case (2 b bs)
  then show ?case by simp
next
  case (3 b bs t ts)
  from "3.prems"(1) have ne: "text_lines b \<noteq> []" and wbs: "wf_document bs"
    by (simp_all add: wf_document_def wf_block_def)
  then obtain t1 more where tl: "text_lines b = t1 # more" by (cases "text_lines b") auto
  from "3.prems"(2) have b: "list_all (\<lambda>l. 10 \<notin> set l) (block_lines b)"
    and bs: "list_all (\<lambda>l. 10 \<notin> set l) (document_lines bs)" by simp_all
  from "3.prems"(3) have t: "10 \<notin> set t" and ts: "list_all (\<lambda>t. 10 \<notin> set t) ts" by simp_all
  have "list_all (\<lambda>l. 10 \<notin> set l) (block_lines (insert_translation b t))"
    using b t by (simp add: block_lines_def insert_translation_def tl)
  with "3.IH" [OF wbs bs ts] show ?case by simp
qed

lemma renumbered_lines_length:
  "length ts = length doc \<Longrightarrow> length (renumbered_lines c doc ts) = 3 * length doc"
  by (induction c doc ts rule: renumbered_lines.induct) simp_all

lemma drop_three: "drop (3 + m) (a # b # c # xs) = drop m xs"
  by (simp add: numeral_3_eq_3)

lemma renumbered_lines_group:
  "length ts = length doc \<Longrightarrow> k < length doc \<Longrightarrow>
     take 3 (drop (3 * k) (renumbered_lines c doc ts)) = [str_nat (c + k), timeRange (doc ! k), ts ! k]"
proof (induction c doc ts arbitrary: k rule: renumbered_lines.induct)
  case (1 c b bs t ts)
  show ?case
  proof (cases k)
    case 0
    then show ?thesis by simp
  next
    case (Suc j)
    with "1.prems" have "length ts = length bs" "j < length bs" by simp_all
    from "1.IH" [OF this] Suc show ?thesis by (simp add: drop_three)
  qed
qed simp_all

text \<open>
  C4 (as stated): the translated-only filter keeps exactly the blocks with a non-empty
  translation.  For blocks with indices 5, 9, 12 and translations U+7532, the empty string
  and U+4E19, the merged text filtered with \<open>chinese_only\<close> has three numbered groups, the
  second with an empty text; the specification's filter has two.
\<close>

theorem filter_spec_counterexample:
  "onTranslationFinished
     (join_lines
        (document_lines
           [\<lparr>index = 5, timeRange = lit ''00:01 --> 00:02'', text_lines = [lit ''A'']\<rparr>,
            \<lparr>index = 9, timeRange = lit ''00:03 --> 00:04'', text_lines = [lit ''B'']\<rparr>,
            \<lparr>index = 12, timeRange = lit ''00:05 --> 00:06'', text_lines = [lit ''C'']\<rparr>]
         @ [[]]))
     [[30002], [], [19993]]
   = Inr (join_lines
       [lit ''5'', lit ''00:01 --> 00:02'', lit ''A'', [30002], [],
        lit ''9'', lit ''00:03 --> 00:04'', lit ''B'', [], [],
        lit ''12'', lit ''00:05 --> 00:06'', lit ''C'', [19993], [], []])
   \<and> process_subtitle_lines
       (split_lines (join_lines
         [lit ''5'', lit ''00:01 --> 00:02'', lit ''A'', [30002], [],
          lit ''9'', lit ''00:03 --> 00:04'', lit ''B'', [], [],
          lit ''12'', lit ''00:05 --> 00:06'', lit ''C'', [19993], [], []]))
       (lit ''chinese_only'')
     = [lit ''1'', lit ''00:01 --> 00:02'', [30002],
        lit ''2'', lit ''00:03 --> 00:04'', [],
        lit ''3'', lit ''00:05 --> 00:06'', [19993]]
   \<and> spec_filter_lines 1
        [\<lparr>index = 5, timeRange = lit ''00:01 --> 00:02'', text_lines = [lit ''A'']\<rparr>,
         \<lparr>index = 9, timeRange = lit ''00:03 --> 00:04'', text_lines = [lit ''B'']\<rparr>,
         \<lparr>index = 12, timeRange = lit ''00:05 --> 00:06'', text_lines = [lit ''C'']\<rparr>]
        [[30002], [], [19993]]
     = [lit ''1'', lit ''00:01 --> 00:02'', [30002],
        lit ''2'', lit ''00:05 --> 00:06'', [19993]]"
  by (simp add: onTranslationFinished_def doc_eval)

text \<open>
  The filter relies on the layout of well-formed blocks.  In a document whose first block has
  the digit-only second text line \<open>7\<close>, both walks take that line for an index: the second
  group of the filtered output has a blank line where its time range should be.
\<close>

lemma filter_ill_formed_example:
  "\<not> wf_document
       [\<lparr>index = 1, timeRange = lit ''00:01 --> 00:02'', text_lines = [lit ''A'', lit ''7'']\<rparr>,
        \<lparr>index = 2, timeRange = lit ''00:03 --> 00:04'', text_lines = [lit ''B'']\<rparr>]
   \<and> onTranslationFinished
     (join_lines
        (document_lines
           [\<lparr>index = 1, timeRange = lit ''00:01 --> 00:02'', text_lines = [lit ''A'', lit ''7'']\<rparr>,
            \<lparr>index = 2, timeRange = lit ''00:03 --> 00:04'', text_lines = [lit ''B'']\<rparr>]
         @ [[]]))
     [[30002], [20057]]
   = Inr (join_lines
       [lit ''1'', lit ''00:01 --> 00:02'', lit ''A'', [30002], lit ''7'', [],
        lit ''2'', [20057], lit ''00:03 --> 00:04'', lit ''B'', [], []])
   \<and> process_subtitle_lines
       (split_lines (join_lines
         [lit ''1'', lit ''00:01 --> 00:02'', lit ''A'', [30002], lit ''7'', [],
          lit ''2'', [20057], lit ''00:03 --> 00:04'', lit ''B'', [], []]))
       (lit ''chinese_only'')
     = [lit ''1'', lit ''00:01 --> 00:02'', [30002], lit ''2'', [], [20057]]"
  by (simp add: onTranslationFinished_def doc_eval)

text \<open>
  C4 (amended): for every well-formed document (every block has a text line, no text line
  after the first is digit-only after stripping, no line contains a line feed) and every
  aligned translation list in which no translation is digit-only after stripping or contains
  a line feed, the translated-only filter of the merged text produces one group of three
  lines per block, blocks with an empty translation included: the number of the block,
  counted contiguously from 1, the time range of the block, and the translation as its only
  text.
\<close>

theorem filter_renumbers:
  assumes "wf_document doc" "list_all (\<lambda>l. 10 \<notin> set l) (document_lines doc)"
    "length translated_texts = length doc"
    "list_all (\<lambda>t. \<not> isdigit (strip t) \<and> 10 \<notin> set t) translated_texts"
  shows "\<exists>merged out.
       onTranslationFinished (join_lines (document_lines doc @ replicate (n + 1) []))
         translated_texts = Inr merged
     \<and> process_subtitle_lines (split_lines merged) (lit ''chinese_only'') = out
     \<and> chinese_lines merged = join_lines out
     \<and> out = renumbered_lines 1 doc translated_texts
     \<and> length out = 3 * length doc
     \<and> (\<forall>k<length doc.
           take 3 (drop (3 * k) out)
             = [str_nat (k + 1), timeRange (doc ! k), translated_texts ! k])"
proof -
  let ?ls = "document_lines doc @ replicate (n + 1) []"
  let ?ml = "document_lines (bilingual doc translated_texts) @ replicate (n + 1) []"
  let ?out = "renumbered_lines 1 doc translated_texts"
  from assms(4) have nd: "list_all (\<lambda>t. \<not> isdigit (strip t)) translated_texts"
    and nn: "list_all (\<lambda>t. 10 \<notin> set t) translated_texts"
    by (simp_all add: list_all_iff)
  have pt: "lit ''chinese_only'' \<noteq> lit ''translate''" by (simp add: lit_def)
  have "list_all (\<lambda>l. 10 \<notin> set l) ?ls" using assms(2) by (auto simp: list_all_iff)
  then have sp: "split_lines (join_lines ?ls) = ?ls"
    by (intro split_join_lines) simp_all
  have mg: "merge_lines ?ls translated_texts = Inr ?ml"
    using merge_walk_document_end [OF assms(1), of "n + 1" translated_texts]
    by (simp add: merge_lines_def)
  have m: "onTranslationFinished (join_lines ?ls) translated_texts = Inr (join_lines ?ml)"
    unfolding onTranslationFinished_def sp mg by simp
  have "list_all (\<lambda>l. 10 \<notin> set l) ?ml"
    using bilingual_no_newline [OF assms(1,2) nn] by (auto simp: list_all_iff)
  then have sp2: "split_lines (join_lines ?ml) = ?ml"
    by (intro split_join_lines) simp_all
  have f: "process_subtitle_lines (split_lines (join_lines ?ml)) (lit ''chinese_only'') = ?out"
    unfolding sp2 by (rule chinese_only_document [OF pt assms(1,3) nd])
  have c: "chinese_lines (join_lines ?ml) = join_lines ?out"
    unfolding chinese_lines_def f ..
  have l: "length ?out = 3 * length doc"
    by (rule renumbered_lines_length [OF assms(3)])
  have g: "\<forall>k<length doc.
      take 3 (drop (3 * k) ?out) = [str_nat (k + 1), timeRange (doc ! k), translated_texts ! k]"
    using renumbered_lines_group [OF assms(3), of _ 1] by (simp add: add.commute)
  show ?thesis
    by (rule exI [of _ "join_lines ?ml"], rule exI [of _ ?out], intro conjI)
       (rule m f c refl l g)+
qed

theorem filter_renumbers_witness:
  "\<exists>merged.
       onTranslationFinished
         (join_lines
            (document_lines
               [\<lparr>index = 5, timeRange = lit ''00:01 --> 00:02'', text_lines = [lit ''A'', lit ''a'']\<rparr>,
                \<lparr>index = 9, timeRange = lit ''00:03 --> 00:04'', text_lines = [lit ''B'']\<rparr>,
                \<lparr>index = 12, timeRange = lit ''00:05 --> 00:06'', text_lines = [lit ''C'']\<rparr>]
             @ replicate (0 + 1) []))
         [[30002], [], [19993]] = Inr merged
     \<and> process_subtitle_lines (split_lines merged) (lit ''chinese_only'')
       = [lit ''1'', lit ''00:01 --> 00:02'', [30002],
          lit ''2'', lit ''00:03 --> 00:04'', [],
          lit ''3'', lit ''00:05 --> 00:06'', [19993]]
     \<and> chinese_lines merged
       = join_lines [lit ''1'', lit ''00:01 --> 00:02'', [30002],
          lit ''2'', lit ''00:03 --> 00:04'', [],
          lit ''3'', lit ''00:05 --> 00:06'', [19993]]"
proof -
  let ?doc = "[\<lparr>index = 5, timeRange = lit ''00:01 --> 00:02'', text_lines = [lit ''A'', lit ''a'']\<rparr>,
         \<lparr>index = 9, timeRange = lit ''00:03 --> 00:04'', text_lines = [lit ''B'']\<rparr>,
         \<lparr>index = 12, timeRange = lit ''00:05 --> 00:06'', text_lines = [lit ''C'']\<rparr>]"
  have wf: "wf_document ?doc" by (simp add: doc_eval)
  have nl: "list_all (\<lambda>l. 10 \<notin> set l) (document_lines ?doc)"
    by (simp add: document_lines_def block_lines_def str_nat.simps lit_def)
  have len: "length [[30002], [], [19993::nat]] = length ?doc" by simp
  have nd: "list_all (\<lambda>t. \<not> isdigit (strip t) \<and> 10 \<notin> set t) [[30002], [], [19993]]"
    by (simp add: py_eval)
  have out: "renumbered_lines 1 ?doc [[30002], [], [19993]]
      = [lit ''1'', lit ''00:01 --> 00:02'', [30002],
          lit ''2'', lit ''00:03 --> 00:04'', [],
          lit ''3'', lit ''00:05 --> 00:06'', [19993]]"
    by (simp add: lit_def str_nat.simps numeral_2_eq_2 [symmetric])
  from filter_renumbers [OF wf nl len nd, of 0] obtain merged res where
    m: "onTranslationFinished (join_lines (document_lines ?doc @ replicate (0 + 1) []))
          [[30002], [], [19993]] = Inr merged"
    and f: "process_subtitle_lines (split_lines merged) (lit ''chinese_only'') = res"
    and c: "chinese_lines merged = join_lines res"
    and r: "res = renumbered_lines 1 ?doc [[30002], [], [19993]]"
    by blast
  from f c have "process_subtitle_lines (split_lines merged) (lit ''chinese_only'')
      = renumbered_lines 1 ?doc [[30002], [], [19993]]"
    "chinese_lines merged = join_lines (renumbered_lines 1 ?doc [[30002], [], [19993]])"
    unfolding r by simp_all
  with m show ?thesis unfolding out by (intro exI [of _ merged] conjI)
qed

subsection \<open>The scenario of the specification\<close>

text \<open>
  Two blocks \<open>Hello\<close> and \<open>World\<close>, translated as U+4F60 U+597D and U+4E16 U+754C: the
  extraction yields the two captions, and the merged text has each translation under its
  caption.
\<close>

lemma scenario_bilingual:
  "texts_to_translate
     (lit ''1\<newline>00:00:01,000 --> 00:00:02,000\<newline>Hello\<newline>\<newline>2\<newline>00:00:03,000 --> 00:00:04,000\<newline>World\<newline>\<newline>'')
     = [lit ''Hello'', lit ''World'']
   \<and> onTranslationFinished
     (lit ''1\<newline>00:00:01,000 --> 00:00:02,000\<newline>Hello\<newline>\<newline>2\<newline>00:00:03,000 --> 00:00:04,000\<newline>World\<newline>\<newline>'')
     [[20320, 22909], [19990, 30028]]
     = Inr (lit ''1\<newline>00:00:01,000 --> 00:00:02,000\<newline>Hello\<newline>'' @ [20320, 22909]
            @ lit ''\<newline>\<newline>2\<newline>00:00:03,000 --> 00:00:04,000\<newline>World\<newline>'' @ [19990, 30028]
            @ lit ''\<newline>\<newline>'')"
  by (simp add: texts_to_translate_def onTranslationFinished_def process_subtitle_lines_def
      merge_lines_def merge_walk_unfold process_walk_unfold py_eval)

section \<open>Parsing and serialising\<close>

lemma split_lines_newlines: "split_lines (replicate n 10) = replicate (n + 1) []"
  by (induction n) simp_all

lemma split_lines_serialized:
  "list_all (\<lambda>l. 10 \<notin> set l) ls \<Longrightarrow>
     split_lines (concat (map (\<lambda>l. l @ [10]) ls) @ replicate n 10) = ls @ replicate (n + 1) []"
proof (induction ls)
  case Nil
  then show ?case by (simp add: split_lines_newlines)
next
  case (Cons l ls)
  then have "10 \<notin> set l" by simp
  from split_lines_line [OF this, of "concat (map (\<lambda>l. l @ [10]) ls) @ replicate n 10"] Cons
  show ?case by simp
qed

lemma str_nat_no_newline: "10 \<notin> set (str_nat n)"
  using str_nat_decimal [of n] by (auto simp: list_all_iff)

lemma index_line_str_nat: "index_line (str_nat n)"
  by (simp add: index_line_def str_nat_not_Nil str_nat_decimal)

lemma nat_of_digits_snoc: "nat_of_digits (xs @ [c]) = 10 * nat_of_digits xs + (c - 48)"
  by (simp add: nat_of_digits_def)

lemma nat_of_digits_str_nat: "nat_of_digits (str_nat n) = n"
proof (induction n rule: str_nat.induct)
  case (1 n)
  show ?case
  proof (cases "n < 10")
    case True
    then show ?thesis by (subst str_nat.simps) (simp add: nat_of_digits_def)
  next
    case False
    with 1 have "nat_of_digits (str_nat (n div 10)) = n div 10" by simp
    with False show ?thesis by (subst str_nat.simps) (simp add: nat_of_digits_snoc)
  qed
qed

lemma not_text_line_Nil: "\<not> text_line []"
  by (simp add: text_line_def blank_line_def)

lemma not_index_line_Nil: "\<not> index_line []"
  by (simp add: index_line_def)

lemma parse_lines_blank: "parse_lines ([] # rest) = parse_lines rest"
  by (cases rest) (simp_all add: not_index_line_Nil)

lemma parse_lines_blanks: "parse_lines (replicate n []) = []"
  by (induction n) (simp_all add: parse_lines_blank)

lemma document_lines_no_newline:
  "srt_document doc \<Longrightarrow> list_all (\<lambda>l. 10 \<notin> set l) (document_lines doc)"
  by (induction doc)
     (auto simp: srt_document_def srt_block_def block_lines_def str_nat_no_newline list_all_iff)

lemma parse_lines_block:
  assumes "srt_block b"
  shows "parse_lines (block_lines b @ rest) = b # parse_lines rest"
proof -
  from assms have tls: "list_all text_line (text_lines b)" and ne: "text_lines b \<noteq> []"
    by (auto simp: srt_block_def list_all_iff)
  have tw: "takeWhile text_line (text_lines b @ [] # rest) = text_lines b"
    using tls by (simp add: list_all_iff not_text_line_Nil)
  have dw: "dropWhile text_line (text_lines b @ [] # rest) = [] # rest"
    using tls by (simp add: list_all_iff not_text_line_Nil)
  have "parse_lines (block_lines b @ rest)
      = parse_lines (str_nat (index b) # timeRange b # (text_lines b @ [] # rest))"
    by (simp add: block_lines_def)
  also have "\<dots> = \<lparr>index = nat_of_digits (str_nat (index b)), timeRange = timeRange b,
        text_lines = text_lines b\<rparr> # parse_lines ([] # rest)"
    using ne by (simp add: index_line_str_nat tw dw)
  also have "\<dots> = b # parse_lines rest"
    by (simp add: nat_of_digits_str_nat parse_lines_blank)
  finally show ?thesis .
qed

lemma parse_lines_document:
  "srt_document doc \<Longrightarrow> parse_lines (document_lines doc @ rest) = doc @ parse_lines rest"
proof (induction doc)
  case Nil
  then show ?case by simp
next
  case (Cons b bs)
  then have "srt_block b" "srt_document bs" by (simp_all add: srt_document_def)
  with Cons.IH show ?case
    using parse_lines_block [of b "document_lines bs @ rest"] by simp
qed

text \<open>
  C9: for every well-formed SRT input, that is the serialization of a well-formed document,
  followed by any number of further line feeds, parsing returns exactly the blocks of the
  document, with index, time range and text lines as they are, and serializing the parse
  reproduces the serialization of the document.
\<close>

theorem parse_serialize_round_trip:
  assumes "srt_document doc"
  shows "parse (serialize doc @ replicate n 10) = doc
     \<and> serialize (parse (serialize doc @ replicate n 10)) = serialize doc"
proof -
  have "split_lines (serialize doc @ replicate n 10) = document_lines doc @ replicate (n + 1) []"
    unfolding serialize_def
    by (rule split_lines_serialized [OF document_lines_no_newline [OF assms]])
  then have "parse (serialize doc @ replicate n 10) = doc"
    using parse_lines_document [OF assms, of "replicate (n + 1) []"]
    by (simp add: parse_def parse_lines_blanks del: replicate.simps)
  then show ?thesis by simp
qed

theorem parse_serialize_round_trip_witness:
  "serialize
     [\<lparr>index = 1, timeRange = lit ''00:01 --> 00:02'', text_lines = [lit ''Hello'', lit ''there'']\<rparr>,
      \<lparr>index = 12, timeRange = lit ''00:03 --> 00:04'', text_lines = [lit ''World'']\<rparr>]
   = lit ''1\<newline>00:01 --> 00:02\<newline>Hello\<newline>there\<newline>\<newline>12\<newline>00:03 --> 00:04\<newline>World\<newline>\<newline>''
   \<and> parse (lit ''1\<newline>00:01 --> 00:02\<newline>Hello\<newline>there\<newline>\<newline>12\<newline>00:03 --> 00:04\<newline>World\<newline>\<newline>'')
   = [\<lparr>index = 1, timeRange = lit ''00:01 --> 00:02'', text_lines = [lit ''Hello'', lit ''there'']\<rparr>,
      \<lparr>index = 12, timeRange = lit ''00:03 --> 00:04'', text_lines = [lit ''World'']\<rparr>]"
proof -
  let ?doc = "[\<lparr>index = 1, timeRange = lit ''00:01 --> 00:02'', text_lines = [lit ''Hello'', lit ''there'']\<rparr>,
      \<lparr>index = 12, timeRange = lit ''00:03 --> 00:04'', text_lines = [lit ''World'']\<rparr>]"
  have wf: "srt_document ?doc"
    by (simp add: srt_document_def srt_block_def text_line_def blank_line_def index_line_def py_eval)
  have s: "serialize ?doc = lit ''1\<newline>00:01 --> 00:02\<newline>Hello\<newline>there\<newline>\<newline>12\<newline>00:03 --> 00:04\<newline>World\<newline>\<newline>''"
    by (simp add: serialize_def document_lines_def block_lines_def str_nat.simps lit_def)
  from parse_serialize_round_trip [OF wf, of 0] s show ?thesis by simp
qed

end
